theory Spec2Isabelle
  imports Complex_Main
begin

section \<open>Modelling conventions\<close>

text \<open>
  The development embeds the video pipeline of the genart command line tool:
  \<^verbatim>\<open>src/video/ffmpeg.ts\<close> (encoder arguments and binary resolution),
  \<^verbatim>\<open>src/video/interpolate.ts\<close> (animate specs and easings) and the action of the
  \<^verbatim>\<open>video\<close> command (frame count, chunked capture loop, encoder hand-over).

  \<^item> A JavaScript \<^verbatim>\<open>number\<close> is a real that is a finite binary64 value; \<^verbatim>\<open>NaN\<close> is
    the value \<open>None\<close> where the code tests for it. The rounding of an arithmetic result
    to binary64 is the function \<open>fl64\<close> below. It is applied in the frame count and in
    the easings and the interpolation, where it decides the result; the quality formula
    and the time offsets of the frame jobs are written on the exact values.
  \<^item> \<^verbatim>\<open>Math.ceil\<close> is the ceiling, \<^verbatim>\<open>Math.round\<close> rounds halves upwards, which
    is \<open>\<lfloor>x + 1/2\<rfloor>\<close>, the function \<^const>\<open>round\<close>.
  \<^item> An object literal used as a table has its own entries and, behind them, the members
    of \<^verbatim>\<open>Object.prototype\<close>: a lookup finds an inherited member where there is no own
    entry, and an assignment to \<^verbatim>\<open>__proto__\<close> goes to the inherited setter.
  \<^item> Built-ins of the runtime whose text is not part of the repository
    (\<^verbatim>\<open>String(n)\<close> and \<^verbatim>\<open>Number(s)\<close>) are parameters of the functions using them.
  \<^item> Strings are lists of characters; the separators \<^verbatim>\<open>=\<close> and \<^verbatim>\<open>:\<close> are single
    characters.
\<close>

section \<open>Numbers and values of the runtime\<close>

text \<open>
  Rounding to binary64, to nearest with ties to even. A non-zero real \<open>x\<close> lies in the
  binade \<open>2^e \<le> |x| < 2^(e+1)\<close>; binary64 has 53 significant bits, so its values in that
  binade are the multiples of \<open>2^(e-52)\<close>, and below \<open>2^(-1022)\<close> (the subnormal range) the
  multiples of \<open>2^(-1074)\<close>. \<open>rne\<close> rounds to the nearest integer, a half to the even
  neighbour. A real beyond the largest finite value rounds to an infinity in the
  runtime, for which this model has no value: \<open>in_range64\<close> says that \<open>x\<close> rounds to a
  finite value, and \<open>is_double\<close> that \<open>x\<close> is itself a finite binary64 value.
\<close>

definition binade :: "real \<Rightarrow> int" where
  "binade x = max \<lfloor>log 2 \<bar>x\<bar>\<rfloor> (- 1022)"

definition quantum :: "real \<Rightarrow> real" where
  "quantum x = 2 powr (of_int (binade x) - 52)"

definition rne :: "real \<Rightarrow> int" where
  "rne m =
     (let f = \<lfloor>m\<rfloor> in
      if m - of_int f < 1 / 2 then f
      else if 1 / 2 < m - of_int f then f + 1
      else if even f then f else f + 1)"

definition fl64 :: "real \<Rightarrow> real" where
  "fl64 x = (if x = 0 then 0 else quantum x * of_int (rne (x / quantum x)))"

definition in_range64 :: "real \<Rightarrow> bool" where
  "in_range64 x = (\<bar>x\<bar> < 2 ^ 1024 - 2 ^ 970)"

definition is_double :: "real \<Rightarrow> bool" where
  "is_double x = (in_range64 x \<and> fl64 x = x)"

text \<open>
  A value that the argument builder handles: a string, or the member of
  \<^verbatim>\<open>Object.prototype\<close> found under a name (a function or an object, never a string and
  never nullish). The names are the properties of \<^verbatim>\<open>Object.prototype\<close>.
\<close>

datatype js_value = JStr string | JInherited string

definition object_prototype_names :: "string list" where
  "object_prototype_names =
     [''constructor'', ''__defineGetter__'', ''__defineSetter__'', ''hasOwnProperty'',
      ''__lookupGetter__'', ''__lookupSetter__'', ''isPrototypeOf'', ''propertyIsEnumerable'',
      ''toString'', ''valueOf'', ''__proto__'', ''toLocaleString'']"

section \<open>Encoder arguments (\<^verbatim>\<open>src/video/ffmpeg.ts\<close>)\<close>

record FfmpegOptions =
  outputPath :: string
  width :: real
  height :: real
  fps :: real
  format :: string
  codec :: string
  quality :: real
  loop :: "real option"

text \<open>
  \<^verbatim>\<open>const maxCrf = codec === "libvpx-vp9" ? 63 : 51;\<close>
  \<^verbatim>\<open>return Math.round(((100 - quality) * maxCrf) / 100);\<close>
  The codec argument is the value that \<^verbatim>\<open>resolveCodec\<close> returned; strict equality with
  the string holds for that string only.
\<close>

definition maxCrf :: "js_value \<Rightarrow> real" where
  "maxCrf c = (if c = JStr ''libvpx-vp9'' then 63 else 51)"

definition qualityToCrf :: "real \<Rightarrow> js_value \<Rightarrow> int" where
  "qualityToCrf q c = round (((100 - q) * maxCrf c) / 100)"

text \<open>
  \<^verbatim>\<open>const map = { h264: "libx264", h265: "libx265", vp9: "libvpx-vp9" };\<close>
  \<^verbatim>\<open>return map[codec] ?? codec;\<close>
  The lookup finds an own entry, or else the member that the object literal inherits
  under that name; \<^verbatim>\<open>??\<close> falls back to the name only when neither exists.
\<close>

definition codec_map :: "(string \<times> string) list" where
  "codec_map = [(''h264'', ''libx264''), (''h265'', ''libx265''), (''vp9'', ''libvpx-vp9'')]"

definition resolveCodec :: "string \<Rightarrow> js_value" where
  "resolveCodec c =
     (case map_of codec_map c of
        Some ff \<Rightarrow> JStr ff
      | None \<Rightarrow> if c \<in> set object_prototype_names then JInherited c else JStr c)"

text \<open>
  \<^verbatim>\<open>buildFfmpegArgs\<close> starts from the input arguments and the overwrite flag, pushes
  the arguments of the GIF branch or of the codec branch, and ends with the output
  path. The parameter \<open>S\<close> is \<^verbatim>\<open>String(n)\<close>; the optional \<open>loop\<close> follows the test
  \<^verbatim>\<open>opts.loop !== undefined\<close>.
\<close>

definition input_args :: "(real \<Rightarrow> string) \<Rightarrow> FfmpegOptions \<Rightarrow> js_value list" where
  "input_args S opts =
     map JStr [''-f'', ''image2pipe'', ''-framerate'', S (fps opts), ''-i'', ''pipe:0'', ''-y'']"

definition gif_args :: "(real \<Rightarrow> string) \<Rightarrow> FfmpegOptions \<Rightarrow> js_value list" where
  "gif_args S opts =
     map JStr [''-vf'', ''fps='' @ S (fps opts)] @
     (case loop opts of None \<Rightarrow> [] | Some l \<Rightarrow> map JStr [''-loop'', S l])"

definition codec_args :: "(real \<Rightarrow> string) \<Rightarrow> FfmpegOptions \<Rightarrow> js_value list" where
  "codec_args S opts =
     (let ffCodec = resolveCodec (codec opts);
          crf = qualityToCrf (quality opts) ffCodec
      in [JStr ''-c:v'', ffCodec, JStr ''-crf'', JStr (S (of_int crf))] @
         (if ffCodec = JStr ''libx264'' \<or> ffCodec = JStr ''libx265''
          then map JStr [''-pix_fmt'', ''yuv420p''] else []) @
         (if ffCodec = JStr ''libx264'' then map JStr [''-movflags'', ''+faststart''] else []))"

definition buildFfmpegArgs :: "(real \<Rightarrow> string) \<Rightarrow> FfmpegOptions \<Rightarrow> js_value list" where
  "buildFfmpegArgs S opts =
     input_args S opts @
     (if format opts = ''gif'' then gif_args S opts else codec_args S opts) @
     [JStr (outputPath opts)]"

text \<open>
  \<^verbatim>\<open>findFfmpeg\<close> reads \<^verbatim>\<open>GENART_FFMPEG_PATH\<close> and returns it when it is truthy (set
  and not the empty string); otherwise it runs \<^verbatim>\<open>which ffmpeg\<close> and returns the trimmed
  output, or throws when that command fails. The two arguments are what the environment
  holds: the variable (\<open>None\<close> when unset) and the outcome of \<^verbatim>\<open>execSync\<close>
  (\<open>None\<close> when it throws). \<^verbatim>\<open>trim\<close> removes the ASCII white space at both ends.
\<close>

datatype error =
    SketchLoadFailed
  | SvgStatic
  | ConfigureFailed
  | FfmpegNotFound string
  | InvalidAnimateFormat string
  | InvalidAnimateRange string
  | InvalidAnimateValues string
  | UnknownEasing string
  | InvalidWait
  | CaptureFailed
  | FfmpegExit int
  | OutputStatFailed

definition is_space :: "char \<Rightarrow> bool" where
  "is_space c = (c \<in> {CHR '' '', CHR 0x09, CHR 0x0A, CHR 0x0B, CHR 0x0C, CHR 0x0D})"

definition trim :: "string \<Rightarrow> string" where
  "trim s = rev (dropWhile is_space (rev (dropWhile is_space s)))"

definition ffmpeg_not_found_message :: string where
  "ffmpeg_not_found_message =
     ''ffmpeg not found. Install ffmpeg or set GENART_FFMPEG_PATH.'' @ [CHR 0x0A] @
     ''  macOS: brew install ffmpeg'' @ [CHR 0x0A] @
     ''  Linux: sudo apt install ffmpeg'' @ [CHR 0x0A] @
     ''  Or: GENART_FFMPEG_PATH=/path/to/ffmpeg genart video ...''"

definition findFfmpeg :: "string option \<Rightarrow> string option \<Rightarrow> error + string" where
  "findFfmpeg envPath which_out =
     (case envPath of
        Some (c # cs) \<Rightarrow> Inr (c # cs)
      | _ \<Rightarrow>
          (case which_out of
             Some out \<Rightarrow> Inr (trim out)
           | None \<Rightarrow> Inl (FfmpegNotFound ffmpeg_not_found_message)))"

section \<open>Animate specs and easings (\<^verbatim>\<open>src/video/interpolate.ts\<close>)\<close>

record 'n AnimateSpec =
  key :: string
  start :: 'n
  endv :: 'n

text \<open>
  The easings, each arithmetic operation rounded:
  \<^verbatim>\<open>t => t\<close>, \<^verbatim>\<open>t => t * t\<close>, \<^verbatim>\<open>t => t * (2 - t)\<close> and
  \<^verbatim>\<open>t => (t < 0.5 ? 2 * t * t : -1 + (4 - 2 * t) * t)\<close>.
\<close>

definition linear :: "real \<Rightarrow> real" where
  "linear x = x"

definition ease_in :: "real \<Rightarrow> real" where
  "ease_in x = fl64 (x * x)"

definition ease_out :: "real \<Rightarrow> real" where
  "ease_out x = fl64 (x * fl64 (2 - x))"

definition ease_in_out :: "real \<Rightarrow> real" where
  "ease_in_out x =
     (if x < 1 / 2 then fl64 (fl64 (2 * x) * x)
      else fl64 (- 1 + fl64 (fl64 (4 - fl64 (2 * x)) * x)))"

definition EASINGS :: "(string \<times> (real \<Rightarrow> real)) list" where
  "EASINGS =
     [(''linear'', linear), (''ease-in'', ease_in),
      (''ease-out'', ease_out), (''ease-in-out'', ease_in_out)]"

text \<open>
  \<^verbatim>\<open>value.indexOf("=")\<close> is the position of the first occurrence, or \<open>-1\<close>;
  \<^verbatim>\<open>range.split(":")\<close> cuts at every separator, so a string with \<open>k\<close> separators has
  \<open>k + 1\<close> parts and the empty string has the one part \<^verbatim>\<open>""\<close>.
\<close>

definition indexOf :: "'a \<Rightarrow> 'a list \<Rightarrow> int" where
  "indexOf c s = (if c \<in> set s then int (length (takeWhile (\<lambda>x. x \<noteq> c) s)) else - 1)"

fun js_split :: "'a \<Rightarrow> 'a list \<Rightarrow> 'a list list" where
  "js_split c [] = [[]]"
| "js_split c (x # xs) =
     (if x = c then [] # js_split c xs
      else (case js_split c xs of
              p # ps \<Rightarrow> (x # p) # ps
            | [] \<Rightarrow> [[x]]))"

text \<open>
  \<^verbatim>\<open>parseAnimate\<close>. The parameter \<open>N\<close> is \<^verbatim>\<open>Number(s)\<close>, with \<open>None\<close> for \<^verbatim>\<open>NaN\<close>.
\<close>

definition parseAnimate :: "(string \<Rightarrow> 'n option) \<Rightarrow> string \<Rightarrow> error + 'n AnimateSpec" where
  "parseAnimate N v =
     (let eqIdx = indexOf (CHR ''='') v in
      if eqIdx < 1 then Inl (InvalidAnimateFormat v)
      else
        let k = take (nat eqIdx) v;
            range = drop (nat (eqIdx + 1)) v;
            parts = js_split (CHR '':'') range
        in if length parts \<noteq> 2 then Inl (InvalidAnimateRange v)
           else (case (N (parts ! 0), N (parts ! 1)) of
                   (Some a, Some b) \<Rightarrow> Inr \<lparr>key = k, start = a, endv = b\<rparr>
                 | _ \<Rightarrow> Inl (InvalidAnimateValues v)))"

text \<open>
  \<^verbatim>\<open>result[key] = n\<close> on the plain object \<open>result\<close>, for a number \<open>n\<close>: every key becomes
  an own property, except \<^verbatim>\<open>__proto__\<close>, whose inherited setter ignores a number and
  stores nothing. The map holds the own properties.
\<close>

definition set_property :: "(string \<rightharpoonup> real) \<Rightarrow> string \<Rightarrow> real \<Rightarrow> (string \<rightharpoonup> real)" where
  "set_property result k n = (if k = ''__proto__'' then result else result(k \<mapsto> n))"

text \<open>
  \<^verbatim>\<open>interpolateParams\<close>: the eased time is computed once from the clamped \<open>t\<close>, then
  every spec, in order, stores \<^verbatim>\<open>spec.start + (spec.end - spec.start) * easedT\<close> under
  its key, each operation rounded.
\<close>

definition interpolateParams ::
  "real AnimateSpec list \<Rightarrow> real \<Rightarrow> (real \<Rightarrow> real) \<Rightarrow> (string \<rightharpoonup> real)" where
  "interpolateParams specs tm easing =
     (let easedT = easing (max 0 (min 1 tm)) in
      fold (\<lambda>spec result.
              set_property result (key spec)
                (fl64 (start spec + fl64 (fl64 (endv spec - start spec) * easedT))))
        specs Map.empty)"

definition collectAnimates :: "string \<Rightarrow> string list \<Rightarrow> string list" where
  "collectAnimates v prev = prev @ [v]"

section \<open>The \<^verbatim>\<open>video\<close> command\<close>

text \<open>
  What the command reads from its options and from its collaborators. The sketch is what
  \<^verbatim>\<open>loadSketch\<close> returns (\<open>None\<close> when it throws); \<open>env_configure_ok\<close> is whether the
  override parsing, \<^verbatim>\<open>applyOverrides\<close> and the registry lookup return; \<open>env_wait\<close> is the
  result of \<^verbatim>\<open>parseWait\<close> (\<open>None\<close> when it throws). A frame capture is the work of the
  browser for one frame job: \<open>env_capture\<close> gives, for the job and the actions run on its
  page, the buffer of the screenshot, or \<open>None\<close> when any step of the capture throws.
  \<open>env_completion i\<close> lists, for the chunk starting at frame \<open>i\<close>, the positions of the
  chunk in the order in which their captures settle. \<open>env_close_code\<close> is the code of the
  encoder's \<^verbatim>\<open>close\<close> event (\<open>None\<close> for \<^verbatim>\<open>null\<close>); the encoder is taken to emit that
  event once its input has ended. The concurrency option is a natural number.
\<close>

record sketch =
  renderer_type :: string
  canvas_width :: real
  canvas_height :: real

record frame_job =
  job_index :: nat
  job_t :: real
  job_timeOffsetMs :: real
  job_animatedParams :: "(string \<rightharpoonup> real) option"

text \<open>
  What a capture does with its page, in order: load the content, wait for the
  initialisation when the wait is positive, inject the offset and wait one animation
  frame when the offset is positive, take the screenshot, close the page.
\<close>

datatype page_action =
    SetContent
  | InitWait real
  | InjectTimeOffset real
  | AwaitAnimationFrame
  | Screenshot
  | ClosePage

definition page_actions :: "real \<Rightarrow> frame_job \<Rightarrow> page_action list" where
  "page_actions initWaitMs job =
     [SetContent] @
     (if initWaitMs > 0 then [InitWait initWaitMs] else []) @
     (if job_timeOffsetMs job > 0
      then [InjectTimeOffset (job_timeOffsetMs job), AwaitAnimationFrame] else []) @
     [Screenshot, ClosePage]"

record 'f video_env =
  env_sketch :: "sketch option"
  env_configure_ok :: bool
  env_ffmpeg_path :: "string option"
  env_which :: "string option"
  env_wait :: "real option"
  env_output :: string
  opt_duration :: real
  opt_fps :: real
  opt_format :: string
  opt_codec :: string
  opt_quality :: real
  opt_loop :: "real option"
  opt_animate :: "string list"
  opt_easing :: string
  opt_concurrency :: nat
  env_capture :: "frame_job \<Rightarrow> page_action list \<Rightarrow> 'f option"
  env_completion :: "nat \<Rightarrow> nat list"
  env_close_code :: "int option"
  env_stat_ok :: bool

text \<open>What a run does to the outside world.\<close>

record 'f run_state =
  pages_opened :: nat
  spawned :: "(string \<times> js_value list) option"
  stdin_written :: "'f list"
  stdin_ended :: bool
  ffmpeg_exited :: bool
  framesRendered :: nat
  failure :: "error option"
  exitCode :: nat
  browser_closed :: nat

definition init_state :: "'f run_state" where
  "init_state =
     \<lparr>pages_opened = 0, spawned = None, stdin_written = [], stdin_ended = False,
      ffmpeg_exited = False, framesRendered = 0, failure = None, exitCode = 0,
      browser_closed = 0\<rparr>"

text \<open>
  \<^verbatim>\<open>const totalFrames = Math.ceil(duration * fps);\<close>
  The product is a binary64 value, the exact product rounded; its ceiling is exact.
\<close>

definition totalFrames :: "real \<Rightarrow> real \<Rightarrow> int" where
  "totalFrames d r = \<lceil>fl64 (d * r)\<rceil>"

text \<open>
  The values a frame's capture is computed from:
  \<^verbatim>\<open>t = totalFrames <= 1 ? 0 : frameIdx / (totalFrames - 1)\<close>,
  \<^verbatim>\<open>timeOffsetMs = (frameIdx / fps) * 1000\<close>, and the interpolated parameters when
  there is at least one animate spec.
\<close>

definition make_job ::
  "real AnimateSpec list \<Rightarrow> (real \<Rightarrow> real) \<Rightarrow> int \<Rightarrow> real \<Rightarrow> nat \<Rightarrow> frame_job" where
  "make_job animateSpecs easing tot r frameIdx =
     (let tm = (if tot \<le> 1 then 0 else real frameIdx / real_of_int (tot - 1)) in
      \<lparr>job_index = frameIdx,
       job_t = tm,
       job_timeOffsetMs = (real frameIdx / r) * 1000,
       job_animatedParams =
         (if animateSpecs \<noteq> [] then Some (interpolateParams animateSpecs tm easing) else None)\<rparr>)"

text \<open>
  \<^verbatim>\<open>Promise.all\<close> over the captures of one chunk. Every capture that settles with a
  buffer stores it at its own position of the result array; the first capture that
  settles with an error rejects the whole; the array is delivered once every position
  is filled, and never if some capture never settles.
\<close>

datatype 'a settled = Fulfilled 'a | Rejected | Pending

fun promise_all ::
  "('j \<Rightarrow> 'f option) \<Rightarrow> 'j list \<Rightarrow> 'f option list \<Rightarrow> nat list \<Rightarrow> 'f list settled" where
  "promise_all cap jobs vals [] =
     (if None \<in> set vals then Pending else Fulfilled (map the vals))"
| "promise_all cap jobs vals (p # ps) =
     (if p < length jobs \<and> vals ! p = None
      then (case cap (jobs ! p) of
              None \<Rightarrow> Rejected
            | Some buf \<Rightarrow> promise_all cap jobs (vals[p := Some buf]) ps)
      else promise_all cap jobs vals ps)"

text \<open>
  The capture loop,
  \<^verbatim>\<open>for (let i = 0; i < totalFrames; i += concurrency)\<close>. Each round starts the capture
  of every frame of the chunk (one page each, counted in \<open>pages_opened\<close>), awaits \<^verbatim>\<open>Promise.all\<close>, writes the delivered array to the
  encoder's input in array order and counts the frames. A rejected capture leaves the
  loop with the error. The loop does not return when a chunk never settles, or when the
  concurrency is 0.
\<close>

partial_function (option) frame_loop ::
  "(frame_job \<Rightarrow> 'f option) \<Rightarrow> (nat \<Rightarrow> nat list) \<Rightarrow> (nat \<Rightarrow> frame_job) \<Rightarrow> int \<Rightarrow> nat \<Rightarrow>
   nat \<Rightarrow> 'f run_state \<Rightarrow> ((error + unit) \<times> 'f run_state) option" where
  "frame_loop cap completion job tot concurrency i st =
     (if int i < tot then
        (let chunkSize = nat (min (int concurrency) (tot - int i));
             frameIndices = map (\<lambda>j. i + j) [0..<chunkSize];
             st1 = st\<lparr>pages_opened := pages_opened st + chunkSize\<rparr>
         in case promise_all cap (map job frameIndices) (replicate chunkSize None) (completion i) of
              Pending \<Rightarrow> None
            | Rejected \<Rightarrow> Some (Inl CaptureFailed, st1)
            | Fulfilled frames \<Rightarrow>
                frame_loop cap completion job tot concurrency (i + concurrency)
                  (st1\<lparr>stdin_written := stdin_written st1 @ frames,
                       framesRendered := framesRendered st1 + chunkSize\<rparr>))
      else Some (Inr (), st))"

text \<open>
  Everything before the encoder is spawned, in the order of the source: load the sketch,
  reject the SVG renderer, configure, resolve the encoder binary, parse the animate
  specs, look the easing up, count the frames, parse the wait, build the arguments.
  The easing option is looked up among the four entries of \<^verbatim>\<open>EASINGS\<close>; an option that
  names a member of \<^verbatim>\<open>Object.prototype\<close> is not an easing and is outside this model.
\<close>

record prepared =
  p_ffmpegPath :: string
  p_animateSpecs :: "real AnimateSpec list"
  p_easing :: "real \<Rightarrow> real"
  p_totalFrames :: int
  p_initWaitMs :: real
  p_ffmpegArgs :: "js_value list"

fun parse_all :: "('a \<Rightarrow> error + 'b) \<Rightarrow> 'a list \<Rightarrow> error + 'b list" where
  "parse_all f [] = Inr []"
| "parse_all f (x # xs) =
     (case f x of
        Inl e \<Rightarrow> Inl e
      | Inr y \<Rightarrow> (case parse_all f xs of Inl e \<Rightarrow> Inl e | Inr ys \<Rightarrow> Inr (y # ys)))"

definition video_setup ::
  "(string \<Rightarrow> real option) \<Rightarrow> (real \<Rightarrow> string) \<Rightarrow> 'f video_env \<Rightarrow> error + prepared" where
  "video_setup N S env =
     (case env_sketch env of
        None \<Rightarrow> Inl SketchLoadFailed
      | Some sk \<Rightarrow>
          if renderer_type sk = ''svg'' then Inl SvgStatic
          else if \<not> env_configure_ok env then Inl ConfigureFailed
          else (case findFfmpeg (env_ffmpeg_path env) (env_which env) of
                  Inl e \<Rightarrow> Inl e
                | Inr ffmpegPath \<Rightarrow>
          (case parse_all (parseAnimate N) (opt_animate env) of
             Inl e \<Rightarrow> Inl e
           | Inr animateSpecs \<Rightarrow>
          (case map_of EASINGS (opt_easing env) of
             None \<Rightarrow> Inl (UnknownEasing (opt_easing env))
           | Some easing \<Rightarrow>
          (case env_wait env of
             None \<Rightarrow> Inl InvalidWait
           | Some initWaitMs \<Rightarrow>
               Inr \<lparr>p_ffmpegPath = ffmpegPath,
                    p_animateSpecs = animateSpecs,
                    p_easing = easing,
                    p_totalFrames = totalFrames (opt_duration env) (opt_fps env),
                    p_initWaitMs = initWaitMs,
                    p_ffmpegArgs =
                      buildFfmpegArgs S
                        \<lparr>outputPath = env_output env, width = canvas_width sk,
                         height = canvas_height sk, fps = opt_fps env,
                         format = opt_format env, codec = opt_codec env,
                         quality = opt_quality env, loop = opt_loop env\<rparr>\<rparr>)))))"

text \<open>
  The \<^verbatim>\<open>catch\<close> block records the failure and sets the exit code to 1; the
  \<^verbatim>\<open>finally\<close> block closes the browser.
\<close>

definition finish :: "error + unit \<Rightarrow> 'f run_state \<Rightarrow> 'f run_state" where
  "finish res st =
     (let st' = (case res of
                   Inl e \<Rightarrow> st\<lparr>failure := Some e, exitCode := 1\<rparr>
                 | Inr u \<Rightarrow> st)
      in st'\<lparr>browser_closed := browser_closed st' + 1\<rparr>)"

text \<open>
  The action of the command: set up, spawn the encoder, run the capture loop, end the
  encoder's input, await its \<^verbatim>\<open>close\<close> event (\<^verbatim>\<open>code ?? 0\<close>), fail on a non-zero code,
  read the size of the output. \<open>None\<close> is a run that does not return.
\<close>

definition videoCommand ::
  "(string \<Rightarrow> real option) \<Rightarrow> (real \<Rightarrow> string) \<Rightarrow> 'f video_env \<Rightarrow> 'f run_state option" where
  "videoCommand N S env =
     (case video_setup N S env of
        Inl e \<Rightarrow> Some (finish (Inl e) init_state)
      | Inr p \<Rightarrow>
          (case frame_loop (\<lambda>job. env_capture env job (page_actions (p_initWaitMs p) job))
                  (env_completion env)
                  (make_job (p_animateSpecs p) (p_easing p) (p_totalFrames p) (opt_fps env))
                  (p_totalFrames p) (opt_concurrency env) 0
                  (init_state\<lparr>spawned := Some (p_ffmpegPath p, p_ffmpegArgs p)\<rparr>) of
             None \<Rightarrow> None
           | Some (Inl e, st) \<Rightarrow> Some (finish (Inl e) st)
           | Some (Inr u, st) \<Rightarrow>
               (let st1 = st\<lparr>stdin_ended := True\<rparr>;
                    st2 = st1\<lparr>ffmpeg_exited := True\<rparr>;
                    code = (case env_close_code env of None \<Rightarrow> 0 | Some c \<Rightarrow> c)
                in if code \<noteq> 0 then Some (finish (Inl (FfmpegExit code)) st2)
                   else if \<not> env_stat_ok env then Some (finish (Inl OutputStatFailed) st2)
                   else Some (finish (Inr ()) st2))))"

text \<open>
  The encoder is orphaned at the end of a run when it was spawned, its input was never
  ended and it has not exited.
\<close>

definition orphaned :: "'f run_state \<Rightarrow> bool" where
  "orphaned st = (spawned st \<noteq> None \<and> \<not> stdin_ended st \<and> \<not> ffmpeg_exited st)"

text \<open>
  The capture loop touches the page count, the bytes written and the frame counter only.
\<close>

definition same_encoder :: "'f run_state \<Rightarrow> 'f run_state \<Rightarrow> bool" where
  "same_encoder st st' =
     (spawned st' = spawned st \<and> stdin_ended st' = stdin_ended st
      \<and> ffmpeg_exited st' = ffmpeg_exited st \<and> failure st' = failure st
      \<and> exitCode st' = exitCode st \<and> browser_closed st' = browser_closed st)"

section \<open>Rounding\<close>

text \<open>
  Facts on \<open>fl64\<close>: it fixes 0, keeps the sign, is non-decreasing on the non-negative
  reals, is computed in a known binade by \<open>fl64_eval\<close>, and is within half a quantum of
  its argument (\<open>fl64_error\<close>).
\<close>

lemma fl64_zero: "fl64 0 = 0"
  by (simp add: fl64_def)

lemma quantum_pos: "0 < quantum x"
  by (simp add: quantum_def)

lemma rne_of_int: "rne (of_int n) = n"
  by (simp add: rne_def)

lemma rne_floor_or_next: "rne m = \<lfloor>m\<rfloor> \<or> rne m = \<lfloor>m\<rfloor> + 1"
  by (simp add: rne_def Let_def)

lemma rne_mono:
  assumes "a \<le> b"
  shows "rne a \<le> rne b"
proof (cases "\<lfloor>a\<rfloor> = \<lfloor>b\<rfloor>")
  case True
  with assms show ?thesis
    by (auto simp: rne_def Let_def)
next
  case False
  with assms have "\<lfloor>a\<rfloor> < \<lfloor>b\<rfloor>"
    using floor_mono [of a b] by linarith
  moreover have "rne a \<le> \<lfloor>a\<rfloor> + 1" and "\<lfloor>b\<rfloor> \<le> rne b"
    using rne_floor_or_next [of a] rne_floor_or_next [of b] by auto
  ultimately show ?thesis by linarith
qed

lemma rne_ge: "of_int n \<le> m \<Longrightarrow> n \<le> rne m"
  using rne_mono [of "of_int n" m] by (simp add: rne_of_int)

lemma rne_le: "m \<le> of_int n \<Longrightarrow> rne m \<le> n"
  using rne_mono [of m "of_int n"] by (simp add: rne_of_int)

lemma binade_eqI:
  assumes "2 powr of_int e \<le> \<bar>x\<bar>" and "\<bar>x\<bar> < 2 powr (of_int e + 1)" and "- 1022 \<le> e"
  shows "binade x = e"
proof -
  have "0 < \<bar>x\<bar>"
    using assms(1) by (smt (verit) powr_gt_zero)
  then have "\<lfloor>log 2 \<bar>x\<bar>\<rfloor> = e"
    using assms(1,2) by (simp add: floor_log_eq_powr_iff)
  with assms(3) show ?thesis by (simp add: binade_def)
qed

lemma fl64_eval:
  assumes "2 powr of_int e \<le> \<bar>x\<bar>" and "\<bar>x\<bar> < 2 powr (of_int e + 1)" and "- 1022 \<le> e"
  shows "fl64 x = 2 powr (of_int e - 52) * of_int (rne (x / 2 powr (of_int e - 52)))"
proof -
  have "x \<noteq> 0"
    using assms(1) by (smt (verit) powr_gt_zero)
  then show ?thesis
    by (simp add: fl64_def quantum_def binade_eqI [OF assms])
qed

lemma fl64_nonneg: "0 \<le> x \<Longrightarrow> 0 \<le> fl64 x"
proof -
  assume "0 \<le> x"
  then have "0 \<le> x / quantum x"
    using quantum_pos [of x] by simp
  then have "0 \<le> rne (x / quantum x)"
    using rne_ge [of 0 "x / quantum x"] by simp
  then show ?thesis
    using quantum_pos [of x] by (simp add: fl64_def)
qed

lemma fl64_nonpos: "x \<le> 0 \<Longrightarrow> fl64 x \<le> 0"
proof -
  assume "x \<le> 0"
  then have "x / quantum x \<le> 0"
    using quantum_pos [of x] by (simp add: divide_nonpos_pos)
  then have "rne (x / quantum x) \<le> 0"
    using rne_le [of "x / quantum x" 0] by simp
  then show ?thesis
    using quantum_pos [of x] by (simp add: fl64_def mult_nonneg_nonpos)
qed

lemma binade_mono: "0 < x \<Longrightarrow> x \<le> y \<Longrightarrow> binade x \<le> binade y"
proof -
  assume "0 < x" "x \<le> y"
  then have "log 2 \<bar>x\<bar> \<le> log 2 \<bar>y\<bar>" by simp
  then have "\<lfloor>log 2 \<bar>x\<bar>\<rfloor> \<le> \<lfloor>log 2 \<bar>y\<bar>\<rfloor>" by (rule floor_mono)
  then show ?thesis by (simp add: binade_def)
qed

lemma below_next_binade:
  assumes "0 < x"
  shows "x < 2 powr (of_int (binade x) + 1)"
proof -
  have "log 2 x < of_int \<lfloor>log 2 x\<rfloor> + 1" by linarith
  also have "\<dots> \<le> of_int (binade x) + 1"
    using assms by (simp add: binade_def)
  finally have "log 2 x < of_int (binade x) + 1" .
  then show ?thesis
    using assms by (simp add: log_less_iff)
qed

lemma above_binade:
  assumes "0 < x" and "- 1022 < binade x"
  shows "2 powr of_int (binade x) \<le> x"
proof -
  from assms have "binade x = \<lfloor>log 2 x\<rfloor>"
    by (simp add: binade_def max_def split: if_splits)
  then have "of_int (binade x) \<le> log 2 x" by simp
  then show ?thesis
    using assms(1) by (simp add: le_log_iff)
qed

lemma fl64_le_next_binade:
  assumes "0 < x"
  shows "fl64 x \<le> 2 powr (of_int (binade x) + 1)"
proof -
  have q: "quantum x * 2 ^ 53 = 2 powr (of_int (binade x) + 1)"
  proof -
    have "of_int (binade x) + 1 = (of_int (binade x) - 52) + (53::real)" by simp
    then have "(2::real) powr (of_int (binade x) + 1) = 2 powr ((of_int (binade x) - 52) + 53)" by (rule arg_cong)
    also have "\<dots> = 2 powr (of_int (binade x) - 52) * 2 powr 53" by (rule powr_add)
    finally show ?thesis by (simp add: quantum_def)
  qed
  have "x / quantum x \<le> 2 ^ 53"
    using below_next_binade [OF assms] quantum_pos [of x] q
    by (simp add: pos_divide_le_eq mult.commute)
  then have "x / quantum x \<le> of_int (2 ^ 53)" by simp
  then have "rne (x / quantum x) \<le> 2 ^ 53" by (rule rne_le)
  then have "of_int (rne (x / quantum x)) \<le> (2 ^ 53 :: real)"
    by (metis of_int_le_iff of_int_numeral of_int_power)
  then have "quantum x * of_int (rne (x / quantum x)) \<le> quantum x * 2 ^ 53"
    using quantum_pos [of x] by simp
  with assms q show ?thesis by (simp add: fl64_def)
qed

lemma fl64_ge_binade:
  assumes "0 < x" and "- 1022 < binade x"
  shows "2 powr of_int (binade x) \<le> fl64 x"
proof -
  have q: "quantum x * 2 ^ 52 = 2 powr of_int (binade x)"
  proof -
    have "(2::real) powr of_int (binade x) = 2 powr ((of_int (binade x) - 52) + 52)" by simp
    also have "\<dots> = 2 powr (of_int (binade x) - 52) * 2 powr 52" by (rule powr_add)
    finally show ?thesis by (simp add: quantum_def)
  qed
  have "2 ^ 52 \<le> x / quantum x"
    using above_binade [OF assms] quantum_pos [of x] q
    by (simp add: pos_le_divide_eq mult.commute)
  then have "of_int (2 ^ 52) \<le> x / quantum x" by simp
  then have "2 ^ 52 \<le> rne (x / quantum x)" by (rule rne_ge)
  then have "(2 ^ 52 :: real) \<le> of_int (rne (x / quantum x))"
    by (metis of_int_le_iff of_int_numeral of_int_power)
  then have "quantum x * 2 ^ 52 \<le> quantum x * of_int (rne (x / quantum x))"
    using quantum_pos [of x] by simp
  with assms q show ?thesis by (simp add: fl64_def)
qed

lemma fl64_mono:
  assumes "0 \<le> x" and "x \<le> y"
  shows "fl64 x \<le> fl64 y"
proof (cases "x = 0")
  case True
  with assms fl64_nonneg [of y] show ?thesis by (simp add: fl64_zero)
next
  case False
  with assms have x: "0 < x" and y: "0 < y" by simp_all
  have le: "binade x \<le> binade y"
    using x assms(2) by (rule binade_mono)
  show ?thesis
  proof (cases "binade x = binade y")
    case True
    then have q: "quantum x = quantum y" by (simp add: quantum_def)
    have "x / quantum y \<le> y / quantum y"
      using assms(2) quantum_pos [of y] by (simp add: divide_right_mono)
    then have "rne (x / quantum y) \<le> rne (y / quantum y)" by (rule rne_mono)
    then have "quantum y * of_int (rne (x / quantum y)) \<le> quantum y * of_int (rne (y / quantum y))"
      using quantum_pos [of y] by simp
    with x y q show ?thesis by (simp add: fl64_def)
  next
    case False
    with le have lt: "binade x < binade y" by simp
    have "- 1022 \<le> binade x" by (simp add: binade_def)
    with lt have n: "- 1022 < binade y" by simp
    have "fl64 x \<le> 2 powr (of_int (binade x) + 1)"
      using x by (rule fl64_le_next_binade)
    also have "\<dots> \<le> 2 powr of_int (binade y)"
      using lt by (intro powr_mono) simp_all
    also have "\<dots> \<le> fl64 y"
      using y n by (rule fl64_ge_binade)
    finally show ?thesis .
  qed
qed

lemma fl64_1: "fl64 1 = 1"
  using fl64_eval [of 0 1] by (simp add: rne_def powr_neg_numeral)

lemma fl64_2: "fl64 2 = 2"
  using fl64_eval [of 1 2] by (simp add: rne_def powr_neg_numeral)

lemma fl64_10: "fl64 10 = 10"
  using fl64_eval [of 3 10] by (simp add: rne_def powr_neg_numeral)

lemma fl64_3_100: "fl64 (3 / 100) = 8646911284551352 / 2 ^ 58"
  using fl64_eval [of "- 6" "3 / 100"] by (simp add: rne_def powr_neg_numeral)

lemma rne_error: "\<bar>of_int (rne m) - m\<bar> \<le> 1 / 2"
  by (simp add: rne_def Let_def)

lemma quantum_le:
  assumes "x \<noteq> 0" and "\<bar>x\<bar> < 2 ^ k"
  shows "quantum x \<le> 2 ^ k / 2 ^ 53"
proof -
  have "log 2 \<bar>x\<bar> < of_nat k"
    using assms by (simp add: log_less_iff powr_realpow)
  then have "\<lfloor>log 2 \<bar>x\<bar>\<rfloor> < int k"
    by (simp add: floor_less_iff)
  then have "binade x \<le> int k - 1"
    by (simp add: binade_def)
  then have "of_int (binade x) - 52 \<le> (of_nat k - 53 :: real)"
    by linarith
  then have "quantum x \<le> 2 powr (of_nat k - 53)"
    unfolding quantum_def by (intro powr_mono) simp_all
  also have "\<dots> = 2 powr (of_nat k) / 2 powr 53"
    by (simp add: powr_diff)
  also have "\<dots> = 2 ^ k / 2 ^ 53"
    by (simp add: powr_realpow)
  finally show ?thesis .
qed

lemma fl64_error:
  assumes "\<bar>x\<bar> < 2 ^ k"
  shows "\<bar>fl64 x - x\<bar> \<le> 2 ^ k / 2 ^ 54"
proof (cases "x = 0")
  case True
  then show ?thesis by (simp add: fl64_zero)
next
  case False
  have q: "0 < quantum x" by (rule quantum_pos)
  have "fl64 x - x = quantum x * (of_int (rne (x / quantum x)) - x / quantum x)"
    using False q by (simp add: fl64_def field_simps)
  then have "\<bar>fl64 x - x\<bar> = quantum x * \<bar>of_int (rne (x / quantum x)) - x / quantum x\<bar>"
    using q by (simp add: abs_mult)
  also have "\<dots> \<le> quantum x * (1 / 2)"
    using q rne_error [of "x / quantum x"] by (intro mult_left_mono) simp_all
  also have "\<dots> \<le> (2 ^ k / 2 ^ 53) * (1 / 2)"
    using quantum_le [OF False assms] by simp
  finally show ?thesis by simp
qed

lemma fl64_error_1: "\<bar>x\<bar> < 2 \<Longrightarrow> \<bar>fl64 x - x\<bar> \<le> 1 / 2 ^ 53"
  using fl64_error [of x 1] by simp

lemma fl64_error_2: "\<bar>x\<bar> < 4 \<Longrightarrow> \<bar>fl64 x - x\<bar> \<le> 1 / 2 ^ 52"
  using fl64_error [of x 2] by simp

section \<open>Quality mapping\<close>

lemma maxCrf_tiers: "maxCrf c = 63 \<or> maxCrf c = 51"
  by (simp add: maxCrf_def)

text \<open>
  C6. \<^verbatim>\<open>qualityToCrf(quality, codec)\<close> is \<open>round((100 - quality) * maxCrf / 100)\<close>;
  \<open>maxCrf\<close> takes exactly the two values 63 (for the identifier \<^verbatim>\<open>libvpx-vp9\<close>) and 51
  (for every other identifier); on the 51 tier the qualities 100, 0, 75 and 50 give
  0, 51, 13 and 26.
\<close>

theorem qualityToCrf_tiers:
  "qualityToCrf q c = round ((100 - q) * maxCrf c / 100)
   \<and> maxCrf (JStr ''libvpx-vp9'') = 63
   \<and> (\<forall>c'. c' \<noteq> JStr ''libvpx-vp9'' \<longrightarrow> maxCrf c' = 51)
   \<and> (\<forall>c'. c' \<noteq> JStr ''libvpx-vp9'' \<longrightarrow>
         qualityToCrf 100 c' = 0 \<and> qualityToCrf 0 c' = 51
         \<and> qualityToCrf 75 c' = 13 \<and> qualityToCrf 50 c' = 26)"
  by (simp add: qualityToCrf_def maxCrf_def round_def)

theorem qualityToCrf_tiers_witness:
  "maxCrf (JStr ''libx264'') = 51 \<and> qualityToCrf 75 (JStr ''libx264'') = 13
   \<and> qualityToCrf 50 (JStr ''libx265'') = 26"
  using qualityToCrf_tiers [of 0 "JStr ''libx264''"] by simp

section \<open>The capture loop delivers the frames in order\<close>

lemma promise_all_fulfilled:
  assumes "length vals = length jobs"
    and "\<forall>p<length jobs. vals ! p = None \<or> vals ! p = cap (jobs ! p)"
    and "\<forall>j\<in>set jobs. cap j \<noteq> None"
    and "\<forall>p<length jobs. vals ! p \<noteq> None \<or> p \<in> set ord"
  shows "promise_all cap jobs vals ord = Fulfilled (map (\<lambda>j. the (cap j)) jobs)"
  using assms
proof (induction ord arbitrary: vals)
  case Nil
  have eq: "vals = map cap jobs"
  proof (rule nth_equalityI)
    show "length vals = length (map cap jobs)" using Nil.prems(1) by simp
  next
    fix q assume "q < length vals"
    then have q: "q < length jobs" using Nil.prems(1) by simp
    with Nil.prems(2,4) have "vals ! q = cap (jobs ! q)" by force
    with q show "vals ! q = map cap jobs ! q" by simp
  qed
  have "None \<notin> set vals"
    using Nil.prems(3) unfolding eq by auto
  then show ?case by (simp add: eq)
next
  case (Cons p ps)
  show ?case
  proof (cases "p < length jobs \<and> vals ! p = None")
    case True
    then obtain buf where buf: "cap (jobs ! p) = Some buf"
      using Cons.prems(3) by (metis nth_mem not_Some_eq)
    have "promise_all cap jobs (vals[p := Some buf]) ps = Fulfilled (map (\<lambda>j. the (cap j)) jobs)"
    proof (rule Cons.IH)
      show "length (vals[p := Some buf]) = length jobs" using Cons.prems(1) by simp
      show "\<forall>q<length jobs. vals[p := Some buf] ! q = None \<or> vals[p := Some buf] ! q = cap (jobs ! q)"
      proof (intro allI impI)
        fix q assume q: "q < length jobs"
        show "vals[p := Some buf] ! q = None \<or> vals[p := Some buf] ! q = cap (jobs ! q)"
        proof (cases "q = p")
          case True
          with q buf Cons.prems(1) show ?thesis by simp
        next
          case False
          with q Cons.prems(2) show ?thesis by simp
        qed
      qed
      show "\<forall>j\<in>set jobs. cap j \<noteq> None" by (rule Cons.prems(3))
      show "\<forall>q<length jobs. vals[p := Some buf] ! q \<noteq> None \<or> q \<in> set ps"
      proof (intro allI impI)
        fix q assume q: "q < length jobs"
        show "vals[p := Some buf] ! q \<noteq> None \<or> q \<in> set ps"
        proof (cases "q = p")
          case True
          with q Cons.prems(1) show ?thesis by simp
        next
          case False
          with q Cons.prems(4) show ?thesis by auto
        qed
      qed
    qed
    with True buf show ?thesis by simp
  next
    case False
    have "promise_all cap jobs vals ps = Fulfilled (map (\<lambda>j. the (cap j)) jobs)"
    proof (rule Cons.IH)
      show "length vals = length jobs" by (rule Cons.prems(1))
      show "\<forall>q<length jobs. vals ! q = None \<or> vals ! q = cap (jobs ! q)" by (rule Cons.prems(2))
      show "\<forall>j\<in>set jobs. cap j \<noteq> None" by (rule Cons.prems(3))
      show "\<forall>q<length jobs. vals ! q \<noteq> None \<or> q \<in> set ps"
        using Cons.prems(4) False by auto
    qed
    with False show ?thesis by auto
  qed
qed

lemma chunk_fulfilled:
  assumes "\<forall>k\<in>{i..<i + cs}. cap (job k) \<noteq> None"
    and "{0..<cs} \<subseteq> set ord"
  shows "promise_all cap (map job (map (\<lambda>j. i + j) [0..<cs])) (replicate cs None) ord
         = Fulfilled (map (\<lambda>k. the (cap (job k))) [i..<i + cs])"
proof -
  have "promise_all cap (map job (map (\<lambda>j. i + j) [0..<cs])) (replicate cs None) ord
        = Fulfilled (map (\<lambda>j. the (cap j)) (map job (map (\<lambda>j. i + j) [0..<cs])))"
    using assms by (intro promise_all_fulfilled) auto
  moreover have "map (\<lambda>j. i + j) [0..<cs] = [i..<i + cs]"
    by (simp add: map_add_upt add.commute)
  ultimately show ?thesis by (simp add: comp_def)
qed

lemma frame_loop_exit:
  "\<not> int i < tot \<Longrightarrow> frame_loop cap completion job tot c i st = Some (Inr (), st)"
  by (subst frame_loop.simps) simp

lemma frame_loop_round:
  assumes "int i < tot"
    and "promise_all cap (map job (map (\<lambda>j. i + j) [0..<nat (min (int c) (tot - int i))]))
           (replicate (nat (min (int c) (tot - int i))) None) (completion i) = Fulfilled frames"
  shows "frame_loop cap completion job tot c i st =
         frame_loop cap completion job tot c (i + c)
           (st\<lparr>pages_opened := pages_opened st + nat (min (int c) (tot - int i)),
               stdin_written := stdin_written st @ frames,
               framesRendered := framesRendered st + nat (min (int c) (tot - int i))\<rparr>)"
  using assms by (subst frame_loop.simps) (simp add: Let_def)

lemma frame_loop_all_frames:
  assumes c: "0 < c"
    and caps: "\<forall>k. int k < tot \<longrightarrow> cap (job k) \<noteq> None"
    and ord: "\<forall>j. int j < tot \<and> c dvd j \<longrightarrow>
                {0..<nat (min (int c) (tot - int j))} \<subseteq> set (completion j)"
    and dvd: "c dvd i"
  shows "frame_loop cap completion job tot c i st =
         Some (Inr (),
               st\<lparr>pages_opened := pages_opened st + (nat tot - i),
                  stdin_written := stdin_written st @ map (\<lambda>k. the (cap (job k))) [i..<nat tot],
                  framesRendered := framesRendered st + (nat tot - i)\<rparr>)"
  using dvd
proof (induction "nat tot - i" arbitrary: i st rule: less_induct)
  case less
  show ?case
  proof (cases "int i < tot")
    case False
    then have "nat tot \<le> i" by linarith
    with False show ?thesis by (simp add: frame_loop_exit)
  next
    case True
    define cs where "cs = nat (min (int c) (tot - int i))"
    have cs_pos: "0 < cs" and cs_le: "i + cs \<le> nat tot" and cs_c: "cs \<le> c"
      using True c by (auto simp: cs_def)
    have full: "(cs = c \<and> i + c \<le> nat tot) \<or> (i + cs = nat tot \<and> nat tot \<le> i + c)"
      using True by (auto simp: cs_def min_def)
    have "\<forall>k\<in>{i..<i + cs}. cap (job k) \<noteq> None"
      using caps cs_le by auto
    moreover have "{0..<cs} \<subseteq> set (completion i)"
      using ord True less.prems by (simp add: cs_def)
    ultimately have pa: "promise_all cap (map job (map (\<lambda>j. i + j) [0..<cs])) (replicate cs None)
          (completion i) = Fulfilled (map (\<lambda>k. the (cap (job k))) [i..<i + cs])"
      by (rule chunk_fulfilled)
    let ?st = "st\<lparr>pages_opened := pages_opened st + cs,
               stdin_written := stdin_written st @ map (\<lambda>k. the (cap (job k))) [i..<i + cs],
               framesRendered := framesRendered st + cs\<rparr>"
    have step: "frame_loop cap completion job tot c i st =
                frame_loop cap completion job tot c (i + c) ?st"
      using frame_loop_round [where completion = completion and st = st, OF True pa [unfolded cs_def]]
      by (simp add: cs_def)
    have less': "nat tot - (i + c) < nat tot - i"
      using True c by linarith
    have dvd': "c dvd i + c"
      using less.prems by simp
    have lists: "[i..<i + cs] @ [i + c..<nat tot] = [i..<nat tot]"
    proof (cases "cs = c")
      case True
      have "[i..<(i + c) + (nat tot - (i + c))] = [i..<i + c] @ [i + c..<(i + c) + (nat tot - (i + c))]"
        by (rule upt_add_eq_append) simp
      with True cs_le show ?thesis by simp
    next
      case False
      with full have "nat tot \<le> i + c" and "i + cs = nat tot" by simp_all
      then show ?thesis by simp
    qed
    have counts: "cs + (nat tot - (i + c)) = nat tot - i"
      using full cs_le by auto
    show ?thesis
      unfolding step less.hyps [OF less' dvd']
      by (simp add: lists [symmetric] counts [symmetric] add.assoc)
  qed
qed

text \<open>
  C1. For every frame count \<open>tot \<ge> 1\<close> and concurrency \<open>c \<ge> 1\<close>, when every capture
  returns its buffer and the captures of each chunk settle in any order (any
  permutation of the chunk's positions), the capture loop returns and has written to
  the encoder's input exactly the buffers of the frames \<open>0, 1, ..., tot - 1\<close>, in this
  order, after opening one page per frame. The chunks are consecutive and of size at
  most \<open>c\<close> (\<open>frame_loop_round\<close>), and a chunk's array holds the buffers by position,
  whatever the order of completion (\<open>chunk_fulfilled\<close>).
\<close>

theorem encoder_receives_frames_in_index_order:
  assumes "1 \<le> tot" and "1 \<le> c"
    and "\<forall>k. int k < tot \<longrightarrow> cap (job k) = Some (frame k)"
    and "\<forall>i. int i < tot \<and> c dvd i \<longrightarrow>
           distinct (completion i) \<and>
           set (completion i) = {0..<nat (min (int c) (tot - int i))}"
  shows "\<exists>st'. frame_loop cap completion job tot c 0 st = Some (Inr (), st')
           \<and> stdin_written st' = stdin_written st @ map frame [0..<nat tot]
           \<and> pages_opened st' = pages_opened st + nat tot"
proof -
  have caps: "\<forall>k. int k < tot \<longrightarrow> cap (job k) \<noteq> None"
    using assms(3) by simp
  have ord: "\<forall>i. int i < tot \<and> c dvd i \<longrightarrow>
               {0..<nat (min (int c) (tot - int i))} \<subseteq> set (completion i)"
    using assms(4) by simp
  have "map (\<lambda>k. the (cap (job k))) [0..<nat tot] = map frame [0..<nat tot]"
    using assms(3) by (intro map_cong) auto
  then show ?thesis
    using frame_loop_all_frames [of c tot cap job completion 0 st] assms(2) caps ord
    by simp
qed

theorem encoder_receives_frames_in_index_order_witness:
  "\<exists>st'. frame_loop (\<lambda>j. Some (job_index j)) (\<lambda>i. rev [0..<nat (min 2 (3 - int i))])
           (make_job [] linear 3 30) 3 2 0 init_state = Some (Inr (), st')
         \<and> stdin_written st' = [0, 1, 2]"
proof -
  have "\<exists>st'. frame_loop (\<lambda>j. Some (job_index j)) (\<lambda>i. rev [0..<nat (min (int 2) (3 - int i))])
           (make_job [] linear 3 30) 3 2 0 init_state = Some (Inr (), st')
         \<and> stdin_written st' = stdin_written (init_state :: nat run_state) @ map (\<lambda>k. k) [0..<nat 3]
         \<and> pages_opened st' = pages_opened (init_state :: nat run_state) + nat 3"
    by (rule encoder_receives_frames_in_index_order) (simp_all add: make_job_def)
  moreover have "[0..<nat 3] = [0, 1, 2]" by (simp add: upt_rec)
  ultimately show ?thesis by (auto simp: init_state_def)
qed

section \<open>Frame count\<close>

lemma fl64_3_2: "fl64 (3 / 2) = 3 / 2"
  using fl64_eval [of 0 "3 / 2"] by (simp add: rne_def powr_neg_numeral)

lemma fl64_3_10ths: "fl64 (fl64 (3 / 100) * 10) = 5404319552844595 / 2 ^ 54"
  unfolding fl64_3_100
  using fl64_eval [of "- 2" "8646911284551352 / 2 ^ 58 * 10"]
  by (simp add: rne_def powr_neg_numeral)

lemma fl64_28_100: "fl64 (7 / 25) = 5044031582654956 / 2 ^ 54"
  using fl64_eval [of "- 2" "7 / 25"] by (simp add: rne_def powr_neg_numeral)

lemma fl64_7: "fl64 (fl64 (7 / 25) * 25) = 7881299347898369 / 2 ^ 50"
  unfolding fl64_28_100
  using fl64_eval [of 2 "5044031582654956 / 2 ^ 54 * 25"]
  by (simp add: rne_def powr_neg_numeral)

lemma totalFrames_examples:
  "totalFrames 1 10 = 10" "totalFrames (1 / 2) 3 = 2" "totalFrames (fl64 (3 / 100)) 10 = 1"
  "totalFrames (fl64 (28 / 100)) 25 = 8"
  by (simp_all add: totalFrames_def fl64_10 fl64_3_2 fl64_3_10ths fl64_7)

lemma totalFrames_pos_iff: "1 \<le> totalFrames d r \<longleftrightarrow> 0 < fl64 (d * r)"
  by (simp add: totalFrames_def)

lemma totalFrames_nonpos: "d * r \<le> 0 \<Longrightarrow> totalFrames d r \<le> 0"
  using fl64_nonpos [of "d * r"] by (simp add: totalFrames_def ceiling_le_iff)

text \<open>
  C3, as stated, asks for at least one frame for every duration and frame rate. A
  duration of 0 at 30 frames per second gives a frame count of 0.
\<close>

theorem totalFrames_no_minimum: "\<not> 1 \<le> totalFrames 0 30"
  by (simp add: totalFrames_def fl64_zero)

text \<open>
  C3, amended. The frame count is the ceiling of the binary64 product of the duration
  and the frame rate, with no lower bound applied: \<open>(1, 10)\<close> gives 10, \<open>(0.5, 3)\<close> gives 2,
  \<open>(0.03, 10)\<close> gives 1 (and \<open>(0.28, 25)\<close> gives 8, the rounded product being just above
  7). It is at least 1 exactly when the rounded product is positive, and it is not
  positive when \<open>duration * fps \<le> 0\<close>. When the captures succeed, the loop opens that many
  pages and delivers that many frames to the encoder, and none when the count is not
  positive. The decimal options are the binary64 values nearest to them, and the
  product is supposed to round to a finite value.
\<close>

theorem totalFrames_ceiling:
  "totalFrames 1 10 = 10 \<and> totalFrames (1 / 2) 3 = 2 \<and> totalFrames (fl64 (3 / 100)) 10 = 1
   \<and> totalFrames (fl64 (28 / 100)) 25 = 8
   \<and> (in_range64 (d * r) \<longrightarrow>
        totalFrames d r = \<lceil>fl64 (d * r)\<rceil>
        \<and> (1 \<le> totalFrames d r \<longleftrightarrow> 0 < fl64 (d * r))
        \<and> (d * r \<le> 0 \<longrightarrow> totalFrames d r \<le> 0)
        \<and> (1 \<le> c \<and> (\<forall>k. int k < totalFrames d r \<longrightarrow> cap (job k) \<noteq> None)
             \<and> (\<forall>i. int i < totalFrames d r \<and> c dvd i \<longrightarrow>
                   {0..<nat (min (int c) (totalFrames d r - int i))} \<subseteq> set (completion i))
           \<longrightarrow> (\<exists>st'. frame_loop cap completion job (totalFrames d r) c 0 init_state
                        = Some (Inr (), st')
                  \<and> int (length (stdin_written st')) = max 0 \<lceil>fl64 (d * r)\<rceil>
                  \<and> int (pages_opened st') = max 0 \<lceil>fl64 (d * r)\<rceil>)))"
proof -
  have loop: "\<exists>st'. frame_loop cap completion job (totalFrames d r) c 0 init_state = Some (Inr (), st')
             \<and> int (length (stdin_written st')) = max 0 \<lceil>fl64 (d * r)\<rceil>
             \<and> int (pages_opened st') = max 0 \<lceil>fl64 (d * r)\<rceil>"
    if "1 \<le> c" "\<forall>k. int k < totalFrames d r \<longrightarrow> cap (job k) \<noteq> None"
      "\<forall>i. int i < totalFrames d r \<and> c dvd i \<longrightarrow>
              {0..<nat (min (int c) (totalFrames d r - int i))} \<subseteq> set (completion i)"
    using frame_loop_all_frames [of c "totalFrames d r" cap job completion 0 init_state] that
    by (simp add: init_state_def totalFrames_def)
  have gen: "totalFrames d r = \<lceil>fl64 (d * r)\<rceil>"
    by (simp add: totalFrames_def)
  show ?thesis
    using totalFrames_examples totalFrames_pos_iff [of d r] totalFrames_nonpos [of d r] loop gen
    by blast
qed

theorem totalFrames_ceiling_witness:
  "in_range64 (1 / 2 * 3) \<and> totalFrames (1 / 2) 3 = 2
   \<and> (\<exists>st'. frame_loop (\<lambda>j. Some (job_index j)) (\<lambda>i. rev [0..<4]) (make_job [] linear 2 3)
         (totalFrames (1 / 2) 3) 4 0 init_state = Some (Inr (), st')
       \<and> length (stdin_written st') = 2)"
proof -
  have two: "totalFrames (1 / 2) 3 = 2" by (simp add: totalFrames_def fl64_3_2)
  have rng: "in_range64 (1 / 2 * 3)" by (simp add: in_range64_def)
  have "\<exists>st'. frame_loop (\<lambda>j. Some (job_index j)) (\<lambda>i. rev [0..<4]) (make_job [] linear 2 3)
         (totalFrames (1 / 2) 3) 4 0 init_state = Some (Inr (), st')
       \<and> int (length (stdin_written st')) = max 0 \<lceil>fl64 ((1 / 2) * (3::real))\<rceil>
       \<and> int (pages_opened st') = max 0 \<lceil>fl64 ((1 / 2) * (3::real))\<rceil>"
    using totalFrames_ceiling [of "1 / 2" 3 4 "\<lambda>j. Some (job_index j)" "make_job [] linear 2 3"
        "\<lambda>i. rev [0..<4]"] rng
    by (auto simp: two)
  then show ?thesis using two rng by (auto simp: fl64_3_2)
qed

section \<open>Time offsets of the frame jobs\<close>

text \<open>
  C9, as stated, makes the offset an integer. Frame 1 at 30 frames per second has the
  offset \<open>100/3\<close> milliseconds.
\<close>

theorem timeOffsetMs_not_integer:
  "job_timeOffsetMs (make_job [] linear 30 30 1) \<notin> \<int>"
proof
  assume "job_timeOffsetMs (make_job [] linear 30 30 1) \<in> \<int>"
  then have "(100 / 3 :: real) \<in> \<int>" by (simp add: make_job_def)
  then obtain n :: int where "(100 / 3 :: real) = of_int n" by (rule Ints_cases)
  then have "real_of_int 100 = real_of_int (3 * n)" by simp
  then have "100 = 3 * n" by (simp only: of_int_eq_iff)
  then show False by presburger
qed

text \<open>
  C9, amended. For every frame index \<open>i\<close> and frame rate, the offset of the frame job is
  \<open>(i / fps) * 1000\<close> milliseconds, unrounded. Frame 0 gets no injection; for \<open>i > 0\<close> and
  a positive frame rate the offset is positive and the page receives exactly one kind
  of injection, with this value.
\<close>

theorem timeOffsetMs_value:
  "job_timeOffsetMs (make_job specs easing tot r i) = (real i / r) * 1000
   \<and> job_index (make_job specs easing tot r i) = i
   \<and> (\<forall>x. InjectTimeOffset x \<notin> set (page_actions w (make_job specs easing tot r 0)))
   \<and> (0 < i \<and> 0 < r \<longrightarrow>
        0 < job_timeOffsetMs (make_job specs easing tot r i)
        \<and> (\<forall>x. InjectTimeOffset x \<in> set (page_actions w (make_job specs easing tot r i))
               \<longleftrightarrow> x = (real i / r) * 1000))"
  by (auto simp: make_job_def page_actions_def Let_def)

theorem timeOffsetMs_value_witness:
  "job_timeOffsetMs (make_job [] linear 30 30 1) = 100 / 3
   \<and> InjectTimeOffset (100 / 3) \<in> set (page_actions 200 (make_job [] linear 30 30 1))"
  using timeOffsetMs_value [of "[]" linear 30 30 1 200] by simp

section \<open>The encoder process on the abort paths\<close>

lemma frame_loop_keeps_encoder:
  assumes "frame_loop cap completion job tot c i st = Some y"
  shows "same_encoder st (snd y)"
proof (rule frame_loop.raw_induct
    [where P = "\<lambda>cap completion job tot c i st y. same_encoder st (snd y)", OF _ assms],
    goal_cases)
  case (1 loop cap completion job tot c i st y)
  show ?case
  proof (cases "int i < tot")
    case False
    with 1(2) show ?thesis by (auto simp: same_encoder_def)
  next
    case True
    define cs where "cs = nat (min (int c) (tot - int i))"
    show ?thesis
    proof (cases "promise_all cap (map job (map ((+) i) [0..<cs])) (replicate cs None) (completion i)")
      case (Fulfilled frames)
      with 1(2) True have "loop cap completion job tot c (i + c)
          (st\<lparr>pages_opened := pages_opened st + cs,
              stdin_written := stdin_written st @ frames,
              framesRendered := framesRendered st + cs\<rparr>) = Some y"
        by (simp add: Let_def cs_def)
      from 1(1) [OF this] show ?thesis by (simp add: same_encoder_def)
    next
      case Rejected
      with 1(2) True show ?thesis by (auto simp: Let_def cs_def same_encoder_def)
    next
      case Pending
      with 1(2) True show ?thesis by (simp add: Let_def cs_def)
    qed
  qed
qed

lemma frame_loop_reject:
  assumes "int i < tot"
    and "promise_all cap (map job (map (\<lambda>j. i + j) [0..<nat (min (int c) (tot - int i))]))
           (replicate (nat (min (int c) (tot - int i))) None) ord = Rejected"
    and "completion i = ord"
  shows "frame_loop cap completion job tot c i st =
         Some (Inl CaptureFailed, st\<lparr>pages_opened := pages_opened st + nat (min (int c) (tot - int i))\<rparr>)"
  using assms by (subst frame_loop.simps) (simp add: Let_def)

lemma capture_failure_orphans_encoder:
  assumes "video_setup N S env = Inr p"
    and "frame_loop (\<lambda>job. env_capture env job (page_actions (p_initWaitMs p) job))
                  (env_completion env)
           (make_job (p_animateSpecs p) (p_easing p) (p_totalFrames p) (opt_fps env))
           (p_totalFrames p) (opt_concurrency env) 0
           (init_state\<lparr>spawned := Some (p_ffmpegPath p, p_ffmpegArgs p)\<rparr>) = Some (Inl e, st)"
  shows "\<exists>st'. videoCommand N S env = Some st' \<and> orphaned st' \<and> exitCode st' = 1
           \<and> failure st' = Some e \<and> browser_closed st' = 1"
proof -
  have "same_encoder (init_state\<lparr>spawned := Some (p_ffmpegPath p, p_ffmpegArgs p)\<rparr>) st"
    using frame_loop_keeps_encoder [OF assms(2)] by simp
  then show ?thesis
    using assms by (simp add: videoCommand_def finish_def orphaned_def same_encoder_def init_state_def)
qed

lemma no_encoder_before_setup_ends:
  assumes "video_setup N S env = Inl e"
  shows "videoCommand N S env = Some (finish (Inl e) init_state)"
    and "\<not> orphaned (finish (Inl e) (init_state :: 'f run_state))"
    and "spawned (finish (Inl e) (init_state :: 'f run_state)) = None"
  using assms by (simp_all add: videoCommand_def finish_def orphaned_def init_state_def)

lemma encoder_exited_after_loop:
  assumes "video_setup N S env = Inr p"
    and "frame_loop (\<lambda>job. env_capture env job (page_actions (p_initWaitMs p) job))
                  (env_completion env)
           (make_job (p_animateSpecs p) (p_easing p) (p_totalFrames p) (opt_fps env))
           (p_totalFrames p) (opt_concurrency env) 0
           (init_state\<lparr>spawned := Some (p_ffmpegPath p, p_ffmpegArgs p)\<rparr>) = Some (Inr u, st)"
  shows "\<exists>st'. videoCommand N S env = Some st' \<and> stdin_ended st' \<and> ffmpeg_exited st' \<and> \<not> orphaned st'
          \<and> (exitCode st' = 1 \<longleftrightarrow> (\<exists>k. env_close_code env = Some k \<and> k \<noteq> 0) \<or> \<not> env_stat_ok env)"
proof -
  have "same_encoder (init_state\<lparr>spawned := Some (p_ffmpegPath p, p_ffmpegArgs p)\<rparr>) st"
    using frame_loop_keeps_encoder [OF assms(2)] by simp
  then have "exitCode st = 0"
    by (simp add: same_encoder_def init_state_def)
  then show ?thesis
    using assms
    by (auto simp: videoCommand_def finish_def orphaned_def Let_def split: option.splits)
qed

text \<open>
  C2. On every abort path the spawned encoder should have been terminated, or have been
  allowed to exit, when the run ends. The paths before the spawn and after the
  \<^verbatim>\<open>close\<close> event satisfy this (\<open>no_encoder_before_setup_ends\<close>,
  \<open>encoder_exited_after_loop\<close>). A failed frame capture does not
  (\<open>capture_failure_orphans_encoder\<close>): in the run below the first capture throws, and
  the run ends with the encoder spawned, its input still open and no exit observed.
\<close>

theorem capture_failure_leaves_encoder_running:
  "\<exists>st. videoCommand (\<lambda>s. None) (\<lambda>x. ''0'')
          \<lparr>env_sketch = Some \<lparr>renderer_type = ''p5'', canvas_width = 600, canvas_height = 600\<rparr>,
           env_configure_ok = True, env_ffmpeg_path = Some ''/usr/local/bin/ffmpeg'',
           env_which = None, env_wait = Some 200, env_output = ''/tmp/test.mp4'',
           opt_duration = 1, opt_fps = 10, opt_format = ''mp4'', opt_codec = ''h264'',
           opt_quality = 75, opt_loop = Some 0, opt_animate = [], opt_easing = ''linear'',
           opt_concurrency = 4, env_capture = (\<lambda>j acts. None :: nat option),
           env_completion = (\<lambda>i. [0, 1, 2, 3]), env_close_code = Some 0,
           env_stat_ok = True\<rparr> = Some st
        \<and> spawned st \<noteq> None \<and> \<not> stdin_ended st \<and> \<not> ffmpeg_exited st \<and> orphaned st
        \<and> failure st = Some CaptureFailed \<and> exitCode st = 1 \<and> browser_closed st = 1"
proof -
  let ?env = "\<lparr>env_sketch = Some \<lparr>renderer_type = ''p5'', canvas_width = 600, canvas_height = 600\<rparr>,
           env_configure_ok = True, env_ffmpeg_path = Some ''/usr/local/bin/ffmpeg'',
           env_which = None, env_wait = Some 200, env_output = ''/tmp/test.mp4'',
           opt_duration = 1, opt_fps = 10, opt_format = ''mp4'', opt_codec = ''h264'',
           opt_quality = 75, opt_loop = Some 0, opt_animate = [], opt_easing = ''linear'',
           opt_concurrency = 4, env_capture = (\<lambda>j acts. None :: nat option),
           env_completion = (\<lambda>i. [0, 1, 2, 3]), env_close_code = Some 0,
           env_stat_ok = True\<rparr>"
  obtain p where p: "video_setup (\<lambda>s. None) (\<lambda>x. ''0'') ?env = Inr p"
    and tot: "p_totalFrames p = 10"
    by (simp add: video_setup_def findFfmpeg_def EASINGS_def totalFrames_def fl64_10)
  have "frame_loop (\<lambda>j. None :: nat option) (\<lambda>i. [0, 1, 2, 3]) job 10 4 0 st0 =
        Some (Inl CaptureFailed, st0\<lparr>pages_opened := pages_opened st0 + nat (min (int 4) (10 - int 0))\<rparr>)"
    for job st0
    by (rule frame_loop_reject [where ord = "[0, 1, 2, 3]"]) simp_all
  then have "frame_loop (\<lambda>job. env_capture ?env job (page_actions (p_initWaitMs p) job))
           (env_completion ?env)
           (make_job (p_animateSpecs p) (p_easing p) (p_totalFrames p) (opt_fps ?env))
           (p_totalFrames p) (opt_concurrency ?env) 0
           (init_state\<lparr>spawned := Some (p_ffmpegPath p, p_ffmpegArgs p)\<rparr>)
         = Some (Inl CaptureFailed,
             init_state\<lparr>spawned := Some (p_ffmpegPath p, p_ffmpegArgs p), pages_opened := 4\<rparr>)"
    by (simp add: tot init_state_def)
  from capture_failure_orphans_encoder [OF p this]
  show ?thesis by (auto simp: orphaned_def)
qed

section \<open>Resolution of the encoder binary\<close>

text \<open>
  C8. \<^verbatim>\<open>findFfmpeg\<close> returns the environment override whenever it is set and not empty,
  whatever the search of the path would give; otherwise it returns the trimmed result of
  the search; when neither resolves it fails with the message that starts with the
  install guidance. The resolution precedes the spawn and the capture loop: when it
  fails, the run returns with no page opened, nothing written, no encoder spawned, the
  browser closed once and exit code 1.
\<close>

theorem findFfmpeg_before_capture:
  "(p \<noteq> [] \<longrightarrow> findFfmpeg (Some p) w = Inr p)
   \<and> (envPath = None \<or> envPath = Some [] \<longrightarrow> findFfmpeg envPath (Some out) = Inr (trim out))
   \<and> (envPath = None \<or> envPath = Some [] \<longrightarrow>
        findFfmpeg envPath None = Inl (FfmpegNotFound ffmpeg_not_found_message))
   \<and> (\<exists>rest. ffmpeg_not_found_message =
          ''ffmpeg not found. Install ffmpeg or set GENART_FFMPEG_PATH.'' @ rest)
   \<and> (findFfmpeg (env_ffmpeg_path env) (env_which env) = Inl e \<longrightarrow>
        (\<exists>st. videoCommand N S env = Some st \<and> pages_opened st = 0 \<and> stdin_written st = []
           \<and> spawned st = None \<and> exitCode st = 1 \<and> browser_closed st = 1
           \<and> (failure st = Some e \<or> failure st = Some SketchLoadFailed
               \<or> failure st = Some SvgStatic \<or> failure st = Some ConfigureFailed)))"
proof -
  have a: "p \<noteq> [] \<longrightarrow> findFfmpeg (Some p) w = Inr p"
    by (cases p) (simp_all add: findFfmpeg_def)
  have b: "envPath = None \<or> envPath = Some [] \<longrightarrow> findFfmpeg envPath (Some out) = Inr (trim out)"
    by (auto simp: findFfmpeg_def)
  have c: "envPath = None \<or> envPath = Some [] \<longrightarrow>
        findFfmpeg envPath None = Inl (FfmpegNotFound ffmpeg_not_found_message)"
    by (auto simp: findFfmpeg_def)
  have d: "\<exists>rest. ffmpeg_not_found_message =
          ''ffmpeg not found. Install ffmpeg or set GENART_FFMPEG_PATH.'' @ rest"
    unfolding ffmpeg_not_found_message_def by (rule exI) (rule refl)
  have e: "\<exists>st. videoCommand N S env = Some st \<and> pages_opened st = 0 \<and> stdin_written st = []
           \<and> spawned st = None \<and> exitCode st = 1 \<and> browser_closed st = 1
           \<and> (failure st = Some e \<or> failure st = Some SketchLoadFailed
               \<or> failure st = Some SvgStatic \<or> failure st = Some ConfigureFailed)"
    if "findFfmpeg (env_ffmpeg_path env) (env_which env) = Inl e"
    using that
    by (auto simp: videoCommand_def video_setup_def finish_def init_state_def split: option.splits)
  from a b c d e show ?thesis by blast
qed

theorem findFfmpeg_before_capture_witness:
  "findFfmpeg (Some ''/custom/ffmpeg'') (Some ''/usr/local/bin/ffmpeg'') = Inr ''/custom/ffmpeg''
   \<and> findFfmpeg None (Some (''/usr/local/bin/ffmpeg'' @ [CHR 0x0A])) = Inr ''/usr/local/bin/ffmpeg''
   \<and> findFfmpeg None None = Inl (FfmpegNotFound ffmpeg_not_found_message)
   \<and> (\<exists>st. videoCommand (\<lambda>s. None) (\<lambda>x. ''0'')
          \<lparr>env_sketch = Some \<lparr>renderer_type = ''p5'', canvas_width = 600, canvas_height = 600\<rparr>,
           env_configure_ok = True, env_ffmpeg_path = None,
           env_which = None, env_wait = Some 200, env_output = ''/tmp/test.mp4'',
           opt_duration = 1, opt_fps = 10, opt_format = ''mp4'', opt_codec = ''h264'',
           opt_quality = 75, opt_loop = Some 0, opt_animate = [], opt_easing = ''linear'',
           opt_concurrency = 4, env_capture = (\<lambda>j acts. Some (job_index j)),
           env_completion = (\<lambda>i. [0, 1, 2, 3]), env_close_code = Some 0,
           env_stat_ok = True\<rparr> = Some st
        \<and> pages_opened st = 0 \<and> exitCode st = 1)"
proof -
  let ?env = "\<lparr>env_sketch = Some \<lparr>renderer_type = ''p5'', canvas_width = 600, canvas_height = 600\<rparr>,
           env_configure_ok = True, env_ffmpeg_path = None,
           env_which = None, env_wait = Some 200, env_output = ''/tmp/test.mp4'',
           opt_duration = 1, opt_fps = 10, opt_format = ''mp4'', opt_codec = ''h264'',
           opt_quality = 75, opt_loop = Some 0, opt_animate = [], opt_easing = ''linear'',
           opt_concurrency = 4, env_capture = (\<lambda>j acts. Some (job_index j)),
           env_completion = (\<lambda>i. [0, 1, 2, 3]), env_close_code = Some 0,
           env_stat_ok = True\<rparr>"
  have t: "trim (''/usr/local/bin/ffmpeg'' @ [CHR 0x0A]) = ''/usr/local/bin/ffmpeg''"
    by (simp add: trim_def is_space_def)
  note thm1 = findFfmpeg_before_capture [of "''/custom/ffmpeg''" "Some ''/usr/local/bin/ffmpeg''"
      None "''/usr/local/bin/ffmpeg'' @ [CHR 0x0A]" ?env "FfmpegNotFound ffmpeg_not_found_message"
      "\<lambda>s. None" "\<lambda>x. ''0''"]
  have nf: "findFfmpeg (env_ffmpeg_path ?env) (env_which ?env)
            = Inl (FfmpegNotFound ffmpeg_not_found_message)"
    by (simp add: findFfmpeg_def)
  from thm1 nf t show ?thesis by auto
qed

section \<open>Encoder arguments\<close>

lemma resolveCodec_known:
  "resolveCodec ''h264'' = JStr ''libx264''" "resolveCodec ''h265'' = JStr ''libx265''"
  "resolveCodec ''vp9'' = JStr ''libvpx-vp9''"
  by (simp_all add: resolveCodec_def codec_map_def)

lemma resolveCodec_other:
  "c \<noteq> ''h264'' \<Longrightarrow> c \<noteq> ''h265'' \<Longrightarrow> c \<noteq> ''vp9'' \<Longrightarrow> c \<notin> set object_prototype_names \<Longrightarrow>
   resolveCodec c = JStr c"
  by (simp add: resolveCodec_def codec_map_def)

lemma resolveCodec_inherited:
  "c \<in> set object_prototype_names \<Longrightarrow> resolveCodec c = JInherited c"
  by (auto simp: resolveCodec_def codec_map_def object_prototype_names_def)

lemma overwrite_flag: "JStr ''-y'' \<in> set (buildFfmpegArgs S opts)"
  by (simp add: buildFfmpegArgs_def input_args_def)

lemma gif_arguments:
  "format opts = ''gif'' \<Longrightarrow> loop opts = Some l \<Longrightarrow>
   buildFfmpegArgs S opts =
     map JStr
       [''-f'', ''image2pipe'', ''-framerate'', S (fps opts), ''-i'', ''pipe:0'', ''-y'',
        ''-vf'', ''fps='' @ S (fps opts), ''-loop'', S l, outputPath opts]"
  by (simp add: buildFfmpegArgs_def input_args_def gif_args_def)

lemma codec_arguments:
  "format opts \<noteq> ''gif'' \<Longrightarrow>
   buildFfmpegArgs S opts =
     map JStr [''-f'', ''image2pipe'', ''-framerate'', S (fps opts), ''-i'', ''pipe:0'', ''-y''] @
     [JStr ''-c:v'', resolveCodec (codec opts), JStr ''-crf'',
      JStr (S (of_int (qualityToCrf (quality opts) (resolveCodec (codec opts)))))] @
     (if resolveCodec (codec opts) \<in> {JStr ''libx264'', JStr ''libx265''}
      then map JStr [''-pix_fmt'', ''yuv420p''] else []) @
     (if resolveCodec (codec opts) = JStr ''libx264''
      then map JStr [''-movflags'', ''+faststart''] else []) @
     [JStr (outputPath opts)]"
  by (simp add: buildFfmpegArgs_def input_args_def codec_args_def Let_def)

lemma gif_no_codec_flags:
  assumes "format opts = ''gif''"
    and "outputPath opts \<notin> {''-c:v'', ''-crf'', ''-pix_fmt'', ''-movflags''}"
    and "\<forall>x. S x \<notin> {''-c:v'', ''-crf'', ''-pix_fmt'', ''-movflags''}"
  shows "set (buildFfmpegArgs S opts) \<inter> JStr ` {''-c:v'', ''-crf'', ''-pix_fmt'', ''-movflags''} = {}"
proof -
  have "''fps='' @ S (fps opts) \<notin> {''-c:v'', ''-crf'', ''-pix_fmt'', ''-movflags''}"
    by simp
  with assms show ?thesis
    by (auto simp: buildFfmpegArgs_def input_args_def gif_args_def split: option.splits)
qed

lemma codec_family_flags:
  assumes "format opts \<noteq> ''gif''"
    and "outputPath opts \<notin> {''-c:v'', ''-crf'', ''-pix_fmt'', ''-movflags''}"
    and "\<forall>x. S x \<notin> {''-c:v'', ''-crf'', ''-pix_fmt'', ''-movflags''}"
    and "resolveCodec (codec opts) \<notin> JStr ` {''-c:v'', ''-crf'', ''-pix_fmt'', ''-movflags''}"
  shows "(JStr ''-pix_fmt'' \<in> set (buildFfmpegArgs S opts)
            \<longleftrightarrow> resolveCodec (codec opts) \<in> {JStr ''libx264'', JStr ''libx265''})"
    and "(JStr ''-movflags'' \<in> set (buildFfmpegArgs S opts)
            \<longleftrightarrow> resolveCodec (codec opts) = JStr ''libx264'')"
  using assms
  by (auto simp: buildFfmpegArgs_def input_args_def codec_args_def Let_def)

text \<open>
  C7. For every options record the arguments contain the overwrite flag \<^verbatim>\<open>-y\<close>. For the
  GIF format they are the input arguments, the frame-rate filter, the loop count and the
  output path, and nothing else: no codec or quality argument. For any other format the
  pixel-format flag follows exactly for the identifiers \<^verbatim>\<open>libx264\<close> and \<^verbatim>\<open>libx265\<close>, and
  the faststart flag exactly for \<^verbatim>\<open>libx264\<close>. The statements on membership suppose that
  the strings supplied from outside (the output path, the codec identifier, the printed
  numbers) are not themselves one of the four flags.
\<close>

theorem buildFfmpegArgs_flags:
  "JStr ''-y'' \<in> set (buildFfmpegArgs S opts)
   \<and> (format opts = ''gif'' \<longrightarrow>
        (\<forall>l. loop opts = Some l \<longrightarrow>
           buildFfmpegArgs S opts =
             map JStr
               [''-f'', ''image2pipe'', ''-framerate'', S (fps opts), ''-i'', ''pipe:0'', ''-y'',
                ''-vf'', ''fps='' @ S (fps opts), ''-loop'', S l, outputPath opts]))
   \<and> (format opts = ''gif'' \<and> outputPath opts \<notin> {''-c:v'', ''-crf'', ''-pix_fmt'', ''-movflags''}
        \<and> (\<forall>x. S x \<notin> {''-c:v'', ''-crf'', ''-pix_fmt'', ''-movflags''}) \<longrightarrow>
        set (buildFfmpegArgs S opts) \<inter> JStr ` {''-c:v'', ''-crf'', ''-pix_fmt'', ''-movflags''} = {})
   \<and> (format opts \<noteq> ''gif'' \<longrightarrow>
        buildFfmpegArgs S opts =
          map JStr [''-f'', ''image2pipe'', ''-framerate'', S (fps opts), ''-i'', ''pipe:0'', ''-y''] @
          [JStr ''-c:v'', resolveCodec (codec opts), JStr ''-crf'',
           JStr (S (of_int (qualityToCrf (quality opts) (resolveCodec (codec opts)))))] @
          (if resolveCodec (codec opts) \<in> {JStr ''libx264'', JStr ''libx265''}
           then map JStr [''-pix_fmt'', ''yuv420p''] else []) @
          (if resolveCodec (codec opts) = JStr ''libx264''
           then map JStr [''-movflags'', ''+faststart''] else []) @
          [JStr (outputPath opts)])
   \<and> (format opts \<noteq> ''gif'' \<and> outputPath opts \<notin> {''-c:v'', ''-crf'', ''-pix_fmt'', ''-movflags''}
        \<and> (\<forall>x. S x \<notin> {''-c:v'', ''-crf'', ''-pix_fmt'', ''-movflags''})
        \<and> resolveCodec (codec opts) \<notin> JStr ` {''-c:v'', ''-crf'', ''-pix_fmt'', ''-movflags''} \<longrightarrow>
        (JStr ''-pix_fmt'' \<in> set (buildFfmpegArgs S opts)
           \<longleftrightarrow> resolveCodec (codec opts) \<in> {JStr ''libx264'', JStr ''libx265''})
        \<and> (JStr ''-movflags'' \<in> set (buildFfmpegArgs S opts)
           \<longleftrightarrow> resolveCodec (codec opts) = JStr ''libx264''))"
proof (intro conjI impI allI)
  show "JStr ''-y'' \<in> set (buildFfmpegArgs S opts)"
    by (rule overwrite_flag)
next
  fix l
  assume "format opts = ''gif''" and "loop opts = Some l"
  then show "buildFfmpegArgs S opts =
             map JStr
               [''-f'', ''image2pipe'', ''-framerate'', S (fps opts), ''-i'', ''pipe:0'', ''-y'',
                ''-vf'', ''fps='' @ S (fps opts), ''-loop'', S l, outputPath opts]"
    by (rule gif_arguments)
next
  assume h: "format opts = ''gif'' \<and> outputPath opts \<notin> {''-c:v'', ''-crf'', ''-pix_fmt'', ''-movflags''}
        \<and> (\<forall>x. S x \<notin> {''-c:v'', ''-crf'', ''-pix_fmt'', ''-movflags''})"
  show "set (buildFfmpegArgs S opts) \<inter> JStr ` {''-c:v'', ''-crf'', ''-pix_fmt'', ''-movflags''} = {}"
    by (rule gif_no_codec_flags [OF h [THEN conjunct1] h [THEN conjunct2, THEN conjunct1]
          h [THEN conjunct2, THEN conjunct2]])
next
  assume "format opts \<noteq> ''gif''"
  then show "buildFfmpegArgs S opts =
          map JStr [''-f'', ''image2pipe'', ''-framerate'', S (fps opts), ''-i'', ''pipe:0'', ''-y''] @
          [JStr ''-c:v'', resolveCodec (codec opts), JStr ''-crf'',
           JStr (S (of_int (qualityToCrf (quality opts) (resolveCodec (codec opts)))))] @
          (if resolveCodec (codec opts) \<in> {JStr ''libx264'', JStr ''libx265''}
           then map JStr [''-pix_fmt'', ''yuv420p''] else []) @
          (if resolveCodec (codec opts) = JStr ''libx264''
           then map JStr [''-movflags'', ''+faststart''] else []) @
          [JStr (outputPath opts)]"
    by (rule codec_arguments)
next
  assume h: "format opts \<noteq> ''gif'' \<and> outputPath opts \<notin> {''-c:v'', ''-crf'', ''-pix_fmt'', ''-movflags''}
        \<and> (\<forall>x. S x \<notin> {''-c:v'', ''-crf'', ''-pix_fmt'', ''-movflags''})
        \<and> resolveCodec (codec opts) \<notin> JStr ` {''-c:v'', ''-crf'', ''-pix_fmt'', ''-movflags''}"
  show "JStr ''-pix_fmt'' \<in> set (buildFfmpegArgs S opts)
           \<longleftrightarrow> resolveCodec (codec opts) \<in> {JStr ''libx264'', JStr ''libx265''}"
    by (rule codec_family_flags(1) [OF h [THEN conjunct1] h [THEN conjunct2, THEN conjunct1]
          h [THEN conjunct2, THEN conjunct2, THEN conjunct1]
          h [THEN conjunct2, THEN conjunct2, THEN conjunct2]])
next
  assume h: "format opts \<noteq> ''gif'' \<and> outputPath opts \<notin> {''-c:v'', ''-crf'', ''-pix_fmt'', ''-movflags''}
        \<and> (\<forall>x. S x \<notin> {''-c:v'', ''-crf'', ''-pix_fmt'', ''-movflags''})
        \<and> resolveCodec (codec opts) \<notin> JStr ` {''-c:v'', ''-crf'', ''-pix_fmt'', ''-movflags''}"
  show "JStr ''-movflags'' \<in> set (buildFfmpegArgs S opts)
           \<longleftrightarrow> resolveCodec (codec opts) = JStr ''libx264''"
    by (rule codec_family_flags(2) [OF h [THEN conjunct1] h [THEN conjunct2, THEN conjunct1]
          h [THEN conjunct2, THEN conjunct2, THEN conjunct1]
          h [THEN conjunct2, THEN conjunct2, THEN conjunct2]])
qed

theorem buildFfmpegArgs_flags_witness:
  "buildFfmpegArgs (\<lambda>x. ''30'')
     \<lparr>outputPath = ''out.gif'', width = 600, height = 600, fps = 30, format = ''gif'',
      codec = ''h264'', quality = 75, loop = Some 0\<rparr>
   = map JStr [''-f'', ''image2pipe'', ''-framerate'', ''30'', ''-i'', ''pipe:0'', ''-y'',
      ''-vf'', ''fps=30'', ''-loop'', ''30'', ''out.gif'']
   \<and> JStr ''-pix_fmt'' \<in> set (buildFfmpegArgs (\<lambda>x. ''30'')
         \<lparr>outputPath = ''out.mp4'', width = 600, height = 600, fps = 30, format = ''mp4'',
          codec = ''h265'', quality = 75, loop = Some 0\<rparr>)
   \<and> JStr ''-movflags'' \<notin> set (buildFfmpegArgs (\<lambda>x. ''30'')
         \<lparr>outputPath = ''out.mp4'', width = 600, height = 600, fps = 30, format = ''mp4'',
          codec = ''h265'', quality = 75, loop = Some 0\<rparr>)"
  using buildFfmpegArgs_flags [of "\<lambda>x. ''30''"
      "\<lparr>outputPath = ''out.gif'', width = 600, height = 600, fps = 30, format = ''gif'',
        codec = ''h264'', quality = 75, loop = Some 0\<rparr>"]
    buildFfmpegArgs_flags [of "\<lambda>x. ''30''"
      "\<lparr>outputPath = ''out.mp4'', width = 600, height = 600, fps = 30, format = ''mp4'',
        codec = ''h265'', quality = 75, loop = Some 0\<rparr>"]
  by (simp add: resolveCodec_known)

lemma other_codec_passes_through:
  assumes "c \<noteq> ''h264''" and "c \<noteq> ''h265''" and "c \<noteq> ''vp9''"
    and "c \<notin> set object_prototype_names"
    and "codec opts = c" and "format opts \<noteq> ''gif''"
  shows "resolveCodec c = JStr c"
    and "take 4 (drop 7 (buildFfmpegArgs S opts))
       = map JStr [''-c:v'', c, ''-crf'', S (of_int (qualityToCrf (quality opts) (JStr c)))]"
    and "c \<noteq> ''libvpx-vp9'' \<Longrightarrow>
        qualityToCrf (quality opts) (JStr c) = round ((100 - quality opts) * 51 / 100)"
    and "c = ''libvpx-vp9'' \<Longrightarrow>
        qualityToCrf (quality opts) (JStr c) = round ((100 - quality opts) * 63 / 100)"
  using assms
  by (simp_all add: resolveCodec_other codec_arguments qualityToCrf_def maxCrf_def)

text \<open>
  C10. A codec name other than \<^verbatim>\<open>h264\<close>, \<^verbatim>\<open>h265\<close> and \<^verbatim>\<open>vp9\<close> should be its own
  identifier and follow \<^verbatim>\<open>-c:v\<close> unchanged. This holds for every name that is not a
  member of \<^verbatim>\<open>Object.prototype\<close> (\<open>other_codec_passes_through\<close>). For the name
  \<^verbatim>\<open>toString\<close> the lookup finds the inherited function, which is not nullish, so the
  fall-back to the name is not taken and the function, not the string, follows \<^verbatim>\<open>-c:v\<close>;
  its quality is mapped on the 51 tier.
\<close>

theorem inherited_codec_name_is_replaced:
  "resolveCodec ''toString'' = JInherited ''toString''
   \<and> resolveCodec ''toString'' \<noteq> JStr ''toString''
   \<and> take 4 (drop 7 (buildFfmpegArgs (\<lambda>x. if x = 13 then ''13'' else ''30'')
         \<lparr>outputPath = ''out.mp4'', width = 600, height = 600, fps = 30, format = ''mp4'',
          codec = ''toString'', quality = 75, loop = Some 0\<rparr>))
       = [JStr ''-c:v'', JInherited ''toString'', JStr ''-crf'', JStr ''13'']"
proof -
  have r: "resolveCodec ''toString'' = JInherited ''toString''"
    by (rule resolveCodec_inherited) (simp add: object_prototype_names_def)
  show ?thesis
    by (simp add: r codec_arguments qualityToCrf_def maxCrf_def round_def)
qed

section \<open>Parsing animate specs\<close>

lemma indexOf_absent: "c \<notin> set s \<Longrightarrow> indexOf c s = - 1"
  by (simp add: indexOf_def)

lemma indexOf_first: "c \<notin> set k \<Longrightarrow> indexOf c (k @ c # r) = int (length k)"
  by (induction k) (auto simp: indexOf_def)

lemma js_split_nonempty: "js_split c s \<noteq> []"
  by (induction s) (auto split: list.splits)

lemma js_split_length: "length (js_split c s) = Suc (count_list s c)"
proof (induction s)
  case Nil
  show ?case by simp
next
  case (Cons x xs)
  obtain p ps where "js_split c xs = p # ps"
    using js_split_nonempty [of c xs] by (cases "js_split c xs") auto
  with Cons show ?case by auto
qed

lemma js_split_no_separator: "c \<notin> set s \<Longrightarrow> js_split c s = [s]"
  by (induction s) auto

lemma js_split_one_separator:
  "c \<notin> set a \<Longrightarrow> c \<notin> set b \<Longrightarrow> js_split c (a @ c # b) = [a, b]"
  by (induction a) (auto simp: js_split_no_separator)

lemma two_parts_form:
  assumes "length (js_split c r) = 2"
  shows "\<exists>a b. r = a @ c # b \<and> c \<notin> set a \<and> c \<notin> set b"
proof -
  from assms have one: "count_list r c = 1"
    by (simp add: js_split_length)
  then have "c \<in> set r"
    by (metis count_list_0_iff zero_neq_one)
  then obtain a b where r: "r = a @ c # b" and a: "c \<notin> set a"
    by (meson split_list_first)
  from one r a have "count_list b c = 0"
    by (simp add: count_list_0_iff [THEN iffD2])
  then have "c \<notin> set b" by (simp add: count_list_0_iff)
  with r a show ?thesis by blast
qed

lemma parseAnimate_no_equals:
  "CHR ''='' \<notin> set v \<Longrightarrow> parseAnimate N v = Inl (InvalidAnimateFormat v)"
  by (simp add: parseAnimate_def indexOf_absent)

lemma parseAnimate_after_key:
  assumes "CHR ''='' \<notin> set k"
  shows "parseAnimate N (k @ CHR ''='' # r) =
     (if k = [] then Inl (InvalidAnimateFormat (k @ CHR ''='' # r))
      else if length (js_split (CHR '':'') r) \<noteq> 2 then Inl (InvalidAnimateRange (k @ CHR ''='' # r))
      else (case (N (js_split (CHR '':'') r ! 0), N (js_split (CHR '':'') r ! 1)) of
              (Some a, Some b) \<Rightarrow> Inr \<lparr>key = k, start = a, endv = b\<rparr>
            | _ \<Rightarrow> Inl (InvalidAnimateValues (k @ CHR ''='' # r))))"
proof -
  have idx: "indexOf (CHR ''='') (k @ CHR ''='' # r) = int (length k)"
    using assms by (rule indexOf_first)
  have suc: "nat (int (length k) + 1) = Suc (length k)" by simp
  have lt: "int (length k) < 1 \<longleftrightarrow> k = []" by auto
  show ?thesis
    unfolding parseAnimate_def idx Let_def suc lt by (simp split: option.splits)
qed

lemma parseAnimate_roundtrip:
  assumes "k \<noteq> []" and "CHR ''='' \<notin> set k" and "CHR '':'' \<notin> set a" and "CHR '':'' \<notin> set b"
  shows "parseAnimate N (k @ CHR ''='' # a @ CHR '':'' # b) =
     (case (N a, N b) of
        (Some x, Some y) \<Rightarrow> Inr \<lparr>key = k, start = x, endv = y\<rparr>
      | _ \<Rightarrow> Inl (InvalidAnimateValues (k @ CHR ''='' # a @ CHR '':'' # b)))"
  using assms
  by (simp add: parseAnimate_after_key js_split_one_separator)

lemma parseAnimate_success_form:
  assumes "parseAnimate N v = Inr s"
  shows "\<exists>a b. v = key s @ CHR ''='' # a @ CHR '':'' # b \<and> key s \<noteq> []
           \<and> CHR ''='' \<notin> set (key s) \<and> CHR '':'' \<notin> set a \<and> CHR '':'' \<notin> set b
           \<and> N a = Some (start s) \<and> N b = Some (endv s)"
proof -
  have "CHR ''='' \<in> set v"
  proof (rule ccontr)
    assume "CHR ''='' \<notin> set v"
    then have "parseAnimate N v = Inl (InvalidAnimateFormat v)"
      by (rule parseAnimate_no_equals)
    with assms show False by simp
  qed
  then have "\<exists>k r. v = k @ CHR ''='' # r \<and> CHR ''='' \<notin> set k"
    by (rule split_list_first)
  then obtain k r where v: "v = k @ CHR ''='' # r" and k: "CHR ''='' \<notin> set k"
    by (elim exE conjE)
  note step = parseAnimate_after_key [OF k, of N r]
  have k_ne: "k \<noteq> []"
  proof
    assume "k = []"
    with step have "parseAnimate N v = Inl (InvalidAnimateFormat v)"
      by (simp add: v)
    with assms show False by simp
  qed
  have two: "length (js_split (CHR '':'') r) = 2"
  proof (rule ccontr)
    assume "length (js_split (CHR '':'') r) \<noteq> 2"
    with step k_ne have "parseAnimate N v = Inl (InvalidAnimateRange v)"
      by (simp add: v)
    with assms show False by simp
  qed
  from two_parts_form [OF two] obtain a b where r: "r = a @ CHR '':'' # b"
    and a: "CHR '':'' \<notin> set a" and b: "CHR '':'' \<notin> set b"
    by (elim exE conjE)
  have res: "(case (N a, N b) of
        (Some x, Some y) \<Rightarrow> Inr \<lparr>key = k, start = x, endv = y\<rparr>
      | _ \<Rightarrow> Inl (InvalidAnimateValues (k @ CHR ''='' # a @ CHR '':'' # b))) = Inr s"
    using parseAnimate_roundtrip [OF k_ne k a b, of N] assms [unfolded v r] by simp
  obtain x where x: "N a = Some x"
    using res by (cases "N a") simp_all
  obtain y where y: "N b = Some y"
    using res x by (cases "N b") simp_all
  from res x y have s: "s = \<lparr>key = k, start = x, endv = y\<rparr>" by simp
  show ?thesis
    by (rule exI [of _ a], rule exI [of _ b]) (simp add: s v r k k_ne a b x y)
qed

text \<open>
  C4. \<^verbatim>\<open>parseAnimate\<close> fails on an input without \<^verbatim>\<open>=\<close>, on an input whose key (the text
  before the first \<^verbatim>\<open>=\<close>) is empty, on a range (the text after the first \<^verbatim>\<open>=\<close>) whose
  number of parts is not two (the number of parts is the number of \<^verbatim>\<open>:\<close> plus one), and
  on an endpoint that \<^verbatim>\<open>Number\<close> maps to \<^verbatim>\<open>NaN\<close>. On every input
  \<^verbatim>\<open>key=start:end\<close> with numeric endpoints it returns that key and the two numbers,
  whatever their sign or fraction; and it succeeds on no other input.
\<close>

theorem parseAnimate_fails_exactly:
  "(CHR ''='' \<notin> set v \<longrightarrow> parseAnimate N v = Inl (InvalidAnimateFormat v))
   \<and> parseAnimate N (CHR ''='' # r) = Inl (InvalidAnimateFormat (CHR ''='' # r))
   \<and> (k \<noteq> [] \<and> CHR ''='' \<notin> set k \<and> length (js_split (CHR '':'') r) \<noteq> 2 \<longrightarrow>
        parseAnimate N (k @ CHR ''='' # r) = Inl (InvalidAnimateRange (k @ CHR ''='' # r)))
   \<and> length (js_split (CHR '':'') r) = Suc (count_list r (CHR '':''))
   \<and> (k \<noteq> [] \<and> CHR ''='' \<notin> set k \<and> CHR '':'' \<notin> set a \<and> CHR '':'' \<notin> set b
        \<and> (N a = None \<or> N b = None) \<longrightarrow>
        parseAnimate N (k @ CHR ''='' # a @ CHR '':'' # b)
          = Inl (InvalidAnimateValues (k @ CHR ''='' # a @ CHR '':'' # b)))
   \<and> (k \<noteq> [] \<and> CHR ''='' \<notin> set k \<and> CHR '':'' \<notin> set a \<and> CHR '':'' \<notin> set b
        \<and> N a = Some x \<and> N b = Some y \<longrightarrow>
        parseAnimate N (k @ CHR ''='' # a @ CHR '':'' # b) = Inr \<lparr>key = k, start = x, endv = y\<rparr>)
   \<and> (parseAnimate N v = Inr s \<longrightarrow>
        (\<exists>a' b'. v = key s @ CHR ''='' # a' @ CHR '':'' # b' \<and> key s \<noteq> []
           \<and> CHR ''='' \<notin> set (key s) \<and> CHR '':'' \<notin> set a' \<and> CHR '':'' \<notin> set b'
           \<and> N a' = Some (start s) \<and> N b' = Some (endv s)))"
proof (intro conjI impI)
  assume "CHR ''='' \<notin> set v"
  then show "parseAnimate N v = Inl (InvalidAnimateFormat v)"
    by (rule parseAnimate_no_equals)
next
  show "parseAnimate N (CHR ''='' # r) = Inl (InvalidAnimateFormat (CHR ''='' # r))"
    using parseAnimate_after_key [of "[]" N r] by simp
next
  assume "k \<noteq> [] \<and> CHR ''='' \<notin> set k \<and> length (js_split (CHR '':'') r) \<noteq> 2"
  then show "parseAnimate N (k @ CHR ''='' # r) = Inl (InvalidAnimateRange (k @ CHR ''='' # r))"
    by (simp add: parseAnimate_after_key)
next
  show "length (js_split (CHR '':'') r) = Suc (count_list r (CHR '':''))"
    by (rule js_split_length)
next
  assume "k \<noteq> [] \<and> CHR ''='' \<notin> set k \<and> CHR '':'' \<notin> set a \<and> CHR '':'' \<notin> set b
        \<and> (N a = None \<or> N b = None)"
  then show "parseAnimate N (k @ CHR ''='' # a @ CHR '':'' # b)
          = Inl (InvalidAnimateValues (k @ CHR ''='' # a @ CHR '':'' # b))"
    by (auto simp: parseAnimate_roundtrip split: option.splits)
next
  assume "k \<noteq> [] \<and> CHR ''='' \<notin> set k \<and> CHR '':'' \<notin> set a \<and> CHR '':'' \<notin> set b
        \<and> N a = Some x \<and> N b = Some y"
  then show "parseAnimate N (k @ CHR ''='' # a @ CHR '':'' # b) = Inr \<lparr>key = k, start = x, endv = y\<rparr>"
    by (simp add: parseAnimate_roundtrip)
next
  assume "parseAnimate N v = Inr s"
  then show "\<exists>a' b'. v = key s @ CHR ''='' # a' @ CHR '':'' # b' \<and> key s \<noteq> []
           \<and> CHR ''='' \<notin> set (key s) \<and> CHR '':'' \<notin> set a' \<and> CHR '':'' \<notin> set b'
           \<and> N a' = Some (start s) \<and> N b' = Some (endv s)"
    by (rule parseAnimate_success_form)
qed

theorem parseAnimate_fails_exactly_witness:
  "parseAnimate (\<lambda>s. if s = ''-10'' then Some (- 10) else if s = ''0.5'' then Some (1 / 2) else None)
     ''offset=-10:0.5'' = Inr \<lparr>key = ''offset'', start = - 10 :: real, endv = 1 / 2\<rparr>
   \<and> parseAnimate (\<lambda>s. if s = ''-10'' then Some (- 10 :: real) else if s = ''0.5'' then Some (1 / 2) else None)
     ''amplitude'' = Inl (InvalidAnimateFormat ''amplitude'')"
  using parseAnimate_fails_exactly
    [where v = "''amplitude''" and k = "''offset''" and a = "''-10''" and b = "''0.5''"
       and x = "- 10 :: real" and y = "1 / 2 :: real"
       and N = "\<lambda>s. if s = ''-10'' then Some (- 10) else if s = ''0.5'' then Some (1 / 2) else None"]
  by simp

section \<open>Easings and interpolation\<close>

lemma easing_endpoints:
  "linear 0 = 0" "linear 1 = 1" "ease_in 0 = 0" "ease_in 1 = 1"
  "ease_out 0 = 0" "ease_out 1 = 1" "ease_in_out 0 = 0" "ease_in_out 1 = 1"
  by (simp_all add: linear_def ease_in_def ease_out_def ease_in_out_def fl64_zero fl64_1 fl64_2)

lemma linear_mono: "x \<le> y \<Longrightarrow> linear x \<le> linear y"
  by (simp add: linear_def)

lemma ease_in_mono:
  assumes "0 \<le> x" and "x \<le> y"
  shows "ease_in x \<le> ease_in y"
proof -
  have "x * x \<le> y * y"
    using assms by (intro mult_mono) simp_all
  moreover have "0 \<le> x * x" by simp
  ultimately show ?thesis
    unfolding ease_in_def by (intro fl64_mono)
qed

lemma registered_easing:
  assumes "(name, f) \<in> set EASINGS"
  shows "(name = ''linear'' \<and> f = linear) \<or> (name = ''ease-in'' \<and> f = ease_in)
         \<or> (name = ''ease-out'' \<and> f = ease_out) \<or> (name = ''ease-in-out'' \<and> f = ease_in_out)"
  using assms by (auto simp: EASINGS_def)

lemma registered_easing_endpoints:
  assumes "(name, f) \<in> set EASINGS"
  shows "f 0 = 0" and "f 1 = 1"
  using registered_easing [OF assms] easing_endpoints by auto

lemma registered_easing_mono:
  assumes "(name, f) \<in> set EASINGS" and "name = ''linear'' \<or> name = ''ease-in''"
    and "0 \<le> x" and "x \<le> y"
  shows "f x \<le> f y"
proof -
  from registered_easing [OF assms(1)] assms(2) have "f = linear \<or> f = ease_in"
    by auto
  then show ?thesis
    using linear_mono [OF assms(4)] ease_in_mono [OF assms(3,4)] by auto
qed

lemma ease_out_error:
  assumes "0 \<le> x" and "x \<le> 1"
  shows "\<bar>ease_out x - x * (2 - x)\<bar> \<le> 1 / 2 ^ 52"
proof -
  define a where "a = fl64 (2 - x)"
  have a: "\<bar>a - (2 - x)\<bar> \<le> 1 / 2 ^ 53"
  proof (cases "x = 0")
    case True
    then show ?thesis by (simp add: a_def fl64_2)
  next
    case False
    with assms have "\<bar>2 - x\<bar> < 2" by simp
    then show ?thesis unfolding a_def by (rule fl64_error_1)
  qed
  have "x * a - x * (2 - x) = x * (a - (2 - x))" by (simp add: algebra_simps)
  then have "\<bar>x * a - x * (2 - x)\<bar> = x * \<bar>a - (2 - x)\<bar>"
    using assms(1) by (simp add: abs_mult)
  also have "\<dots> \<le> 1 * (1 / 2 ^ 53)"
    using assms a by (intro mult_mono) simp_all
  finally have p: "\<bar>x * a - x * (2 - x)\<bar> \<le> 1 / 2 ^ 53" by simp
  have e: "0 \<le> x * (2 - x)" "x * (2 - x) \<le> 1"
  proof -
    show "0 \<le> x * (2 - x)" using assms by simp
    have "1 - x * (2 - x) = (1 - x) * (1 - x)" by (simp add: algebra_simps)
    then have "0 \<le> 1 - x * (2 - x)" by simp
    then show "x * (2 - x) \<le> 1" by simp
  qed
  from p e have "\<bar>x * a\<bar> < 2" by (simp add: abs_if split: if_splits)
  then have "\<bar>fl64 (x * a) - x * a\<bar> \<le> 1 / 2 ^ 53" by (rule fl64_error_1)
  with p have "\<bar>fl64 (x * a) - x * (2 - x)\<bar> \<le> 1 / 2 ^ 53 + 1 / 2 ^ 53" by linarith
  then show ?thesis by (simp add: ease_out_def a_def)
qed

lemma ease_out_exact_mono:
  assumes "0 \<le> x" and "x \<le> y" and "y \<le> (1::real)"
  shows "x * (2 - x) \<le> y * (2 - y)"
proof -
  have "y * (2 - y) - x * (2 - x) = (y - x) * (2 - x - y)" by (simp add: algebra_simps)
  moreover have "0 \<le> (y - x) * (2 - x - y)" using assms by (intro mult_nonneg_nonneg) simp_all
  ultimately show ?thesis by simp
qed

lemma near_mono:
  fixes a b p q e :: real
  assumes "\<bar>a - p\<bar> \<le> e" and "\<bar>b - q\<bar> \<le> e" and "p \<le> q"
  shows "a \<le> b + 2 * e"
  using assms by linarith

lemma ease_out_nearly_mono:
  assumes "0 \<le> x" and "x \<le> y" and "y \<le> 1"
  shows "ease_out x \<le> ease_out y + 1 / 2 ^ 51"
proof -
  have "\<bar>ease_out x - x * (2 - x)\<bar> \<le> 1 / 2 ^ 52"
    using assms by (intro ease_out_error) simp_all
  moreover have "\<bar>ease_out y - y * (2 - y)\<bar> \<le> 1 / 2 ^ 52"
    using assms by (intro ease_out_error) simp_all
  moreover note ease_out_exact_mono [OF assms]
  ultimately have "ease_out x \<le> ease_out y + 2 * (1 / 2 ^ 52)" by (rule near_mono)
  then show ?thesis by simp
qed

lemma ease_in_out_error_low:
  assumes "0 \<le> x" and "x < 1 / 2"
  shows "\<bar>ease_in_out x - 2 * x * x\<bar> \<le> 3 / 2 ^ 52"
proof -
  define e :: real where "e = 1 / 2 ^ 53"
  have e: "0 \<le> e" "e \<le> 1 / 8" "3 / 2 ^ 52 = 6 * e" by (simp_all add: e_def)
  define a where "a = fl64 (2 * x)"
  have "\<bar>2 * x\<bar> < 2" using assms by simp
  then have a: "\<bar>a - 2 * x\<bar> \<le> e" unfolding a_def e_def by (rule fl64_error_1)
  have a0: "0 \<le> a" unfolding a_def using assms(1) by (intro fl64_nonneg) simp
  have "a * x - 2 * x * x = x * (a - 2 * x)" by (simp add: algebra_simps)
  then have "\<bar>a * x - 2 * x * x\<bar> = x * \<bar>a - 2 * x\<bar>"
    using assms(1) by (simp add: abs_mult)
  also have "\<dots> \<le> 1 * e"
    using assms a by (intro mult_mono) simp_all
  finally have p: "\<bar>a * x - 2 * x * x\<bar> \<le> e" by simp
  have "2 * x * x \<le> 2 * (1 / 2) * (1 / 2)"
    using assms by (intro mult_mono) simp_all
  then have u: "2 * x * x \<le> 1 / 2" by simp
  have "0 \<le> a * x" using a0 assms(1) by simp
  with p u e have "\<bar>a * x\<bar> < 2" by linarith
  then have "\<bar>fl64 (a * x) - a * x\<bar> \<le> e" unfolding e_def by (rule fl64_error_1)
  with p e have "\<bar>fl64 (a * x) - 2 * x * x\<bar> \<le> 6 * e" by linarith
  then have "\<bar>fl64 (a * x) - 2 * x * x\<bar> \<le> 3 / 2 ^ 52" unfolding e(3) .
  then show ?thesis using assms(2) by (simp add: ease_in_out_def a_def)
qed

lemma ease_in_out_error_high:
  assumes "1 / 2 \<le> x" and "x \<le> 1"
  shows "\<bar>ease_in_out x - (- 1 + (4 - 2 * x) * x)\<bar> \<le> 3 / 2 ^ 52"
proof -
  define e :: real where "e = 1 / 2 ^ 53"
  have e: "0 \<le> e" "e \<le> 1 / 8" "3 / 2 ^ 52 = 6 * e" "1 / 2 ^ 52 = 2 * e" by (simp_all add: e_def)
  define a where "a = fl64 (2 * x)"
  define b where "b = fl64 (4 - a)"
  define c where "c = fl64 (b * x)"
  have a: "\<bar>a - 2 * x\<bar> \<le> e"
  proof (cases "x = 1")
    case True
    then show ?thesis by (simp add: a_def fl64_2 e)
  next
    case False
    with assms have "\<bar>2 * x\<bar> < 2" by simp
    then show ?thesis unfolding a_def e_def by (rule fl64_error_1)
  qed
  have a1: "1 \<le> a"
    using fl64_mono [of 1 "2 * x"] assms by (simp add: a_def fl64_1)
  have a2: "a \<le> 2"
    using fl64_mono [of "2 * x" 2] assms by (simp add: a_def fl64_2)
  from a1 a2 have "\<bar>4 - a\<bar> < 4" by simp
  then have "\<bar>b - (4 - a)\<bar> \<le> 1 / 2 ^ 52" unfolding b_def by (rule fl64_error_2)
  then have "\<bar>b - (4 - a)\<bar> \<le> 2 * e" by (simp only: e(4))
  with a have b: "\<bar>b - (4 - 2 * x)\<bar> \<le> 3 * e" by linarith
  have "b * x - (4 - 2 * x) * x = x * (b - (4 - 2 * x))" by (simp add: algebra_simps)
  then have "\<bar>b * x - (4 - 2 * x) * x\<bar> = x * \<bar>b - (4 - 2 * x)\<bar>"
    using assms by (simp add: abs_mult)
  also have "\<dots> \<le> 1 * (3 * e)"
    using assms b by (intro mult_mono) simp_all
  finally have p: "\<bar>b * x - (4 - 2 * x) * x\<bar> \<le> 3 * e" by simp
  have e1: "(4 - 2 * x) * x \<le> 2"
  proof -
    have "2 - (4 - 2 * x) * x = 2 * ((1 - x) * (1 - x))" by (simp add: algebra_simps)
    moreover have "0 \<le> 2 * ((1 - x) * (1 - x))" by simp
    ultimately show ?thesis by linarith
  qed
  have e0: "3 / 2 \<le> (4 - 2 * x) * x"
  proof -
    have "2 * ((4 - 2 * x) * x) - 3 = (2 * x - 1) * (3 - 2 * x)" by (simp add: algebra_simps)
    moreover have "0 \<le> (2 * x - 1) * (3 - 2 * x)"
      using assms by (intro mult_nonneg_nonneg) simp_all
    ultimately show ?thesis by linarith
  qed
  from p e0 e1 e have "\<bar>b * x\<bar> < 4" by linarith
  then have "\<bar>c - b * x\<bar> \<le> 1 / 2 ^ 52" unfolding c_def by (rule fl64_error_2)
  then have "\<bar>c - b * x\<bar> \<le> 2 * e" by (simp only: e(4))
  with p have c: "\<bar>c - (4 - 2 * x) * x\<bar> \<le> 5 * e" by linarith
  with e0 e1 e have "\<bar>- 1 + c\<bar> < 2" by linarith
  then have "\<bar>fl64 (- 1 + c) - (- 1 + c)\<bar> \<le> e" unfolding e_def by (rule fl64_error_1)
  with c have "\<bar>fl64 (- 1 + c) - (- 1 + (4 - 2 * x) * x)\<bar> \<le> 6 * e" by linarith
  then have "\<bar>fl64 (- 1 + c) - (- 1 + (4 - 2 * x) * x)\<bar> \<le> 3 / 2 ^ 52" unfolding e(3) .
  then show ?thesis using assms(1) by (simp add: ease_in_out_def a_def b_def c_def)
qed

lemma ease_in_out_exact_mono:
  assumes "0 \<le> x" and "x \<le> y" and "y \<le> (1::real)"
  shows "(if x < 1 / 2 then 2 * x * x else - 1 + (4 - 2 * x) * x)
         \<le> (if y < 1 / 2 then 2 * y * y else - 1 + (4 - 2 * y) * y)"
proof -
  have low: "2 * u * u \<le> 2 * v * v" if "0 \<le> u" "u \<le> v" for u v :: real
    using that by (intro mult_mono) simp_all
  have high: "- 1 + (4 - 2 * u) * u \<le> - 1 + (4 - 2 * v) * v" if "u \<le> v" "v \<le> 1" for u v :: real
  proof -
    have "(4 - 2 * v) * v - (4 - 2 * u) * u = 2 * ((v - u) * (2 - u - v))"
      by (simp add: algebra_simps)
    moreover have "0 \<le> 2 * ((v - u) * (2 - u - v))"
      using that by (intro mult_nonneg_nonneg) simp_all
    ultimately show ?thesis by linarith
  qed
  show ?thesis
  proof (cases "y < 1 / 2")
    case True
    with assms show ?thesis using low [of x y] by simp
  next
    case y: False
    show ?thesis
    proof (cases "x < 1 / 2")
      case True
      have "2 * x * x \<le> 2 * (1 / 2) * (1 / 2)"
        using low [of x "1 / 2"] assms True by simp
      also have "\<dots> = - 1 + (4 - 2 * (1 / 2)) * (1 / 2 :: real)" by simp
      also have "\<dots> \<le> - 1 + (4 - 2 * y) * y"
        using high [of "1 / 2" y] y assms by simp
      finally show ?thesis using True y by simp
    next
      case False
      with y assms show ?thesis using high [of x y] by simp
    qed
  qed
qed

lemma ease_in_out_error:
  assumes "0 \<le> x" and "x \<le> 1"
  shows "\<bar>ease_in_out x - (if x < 1 / 2 then 2 * x * x else - 1 + (4 - 2 * x) * x)\<bar> \<le> 3 / 2 ^ 52"
  using ease_in_out_error_low [of x] ease_in_out_error_high [of x] assms
  by (cases "x < 1 / 2") simp_all

lemma ease_in_out_nearly_mono:
  assumes "0 \<le> x" and "x \<le> y" and "y \<le> 1"
  shows "ease_in_out x \<le> ease_in_out y + 3 / 2 ^ 51"
proof -
  have "\<bar>ease_in_out x - (if x < 1 / 2 then 2 * x * x else - 1 + (4 - 2 * x) * x)\<bar> \<le> 3 / 2 ^ 52"
    using assms by (intro ease_in_out_error) simp_all
  moreover have "\<bar>ease_in_out y - (if y < 1 / 2 then 2 * y * y else - 1 + (4 - 2 * y) * y)\<bar>
      \<le> 3 / 2 ^ 52"
    using assms by (intro ease_in_out_error) simp_all
  moreover note ease_in_out_exact_mono [OF assms]
  ultimately have "ease_in_out x \<le> ease_in_out y + 2 * (3 / 2 ^ 52)" by (rule near_mono)
  then show ?thesis by simp
qed

lemma slack:
  fixes a b d e :: real
  assumes "a \<le> b + d" and "d \<le> e"
  shows "a \<le> b + e"
  using assms by linarith

lemma registered_easing_nearly_mono:
  assumes "(name, f) \<in> set EASINGS" and "0 \<le> x" and "x \<le> y" and "y \<le> 1"
  shows "f x \<le> f y + 3 / 2 ^ 51"
proof -
  have "linear x \<le> linear y + 0"
    using linear_mono [OF assms(3)] by simp
  then have l: "linear x \<le> linear y + 3 / 2 ^ 51" by (rule slack) simp
  have "ease_in x \<le> ease_in y + 0"
    using ease_in_mono [OF assms(2,3)] by simp
  then have i: "ease_in x \<le> ease_in y + 3 / 2 ^ 51" by (rule slack) simp
  have "ease_out x \<le> ease_out y + 1 / 2 ^ 51"
    using assms(2-4) by (rule ease_out_nearly_mono)
  then have out: "ease_out x \<le> ease_out y + 3 / 2 ^ 51" by (rule slack) simp
  have io: "ease_in_out x \<le> ease_in_out y + 3 / 2 ^ 51"
    using assms(2-4) by (rule ease_in_out_nearly_mono)
  from registered_easing [OF assms(1)] l i out io show ?thesis by auto
qed

lemma fold_store_other:
  "k \<notin> key ` set specs \<Longrightarrow>
   fold (\<lambda>spec result. set_property result (key spec) (g spec)) specs m k = m k"
  by (induction specs arbitrary: m) (auto simp: set_property_def)

lemma fold_store_last:
  assumes "key s \<notin> key ` set post" and "key s \<noteq> ''__proto__''"
  shows "fold (\<lambda>spec result. set_property result (key spec) (g spec)) (pre @ s # post) m (key s)
         = Some (g s)"
proof -
  let ?F = "\<lambda>spec result. set_property result (key spec) (g spec)"
  have "fold ?F (pre @ s # post) m (key s) = fold ?F post (set_property (fold ?F pre m) (key s) (g s)) (key s)"
    by simp
  also have "\<dots> = set_property (fold ?F pre m) (key s) (g s) (key s)"
    using assms(1) by (rule fold_store_other)
  also have "\<dots> = Some (g s)"
    using assms(2) by (simp add: set_property_def)
  finally show ?thesis .
qed

lemma fold_store_dom:
  "dom (fold (\<lambda>spec result. set_property result (key spec) (g spec)) specs m)
   \<subseteq> dom m \<union> key ` set specs"
proof (induction specs arbitrary: m)
  case Nil
  show ?case by simp
next
  case (Cons s specs)
  have "dom (set_property m (key s) (g s)) \<subseteq> dom m \<union> {key s}"
    by (auto simp: set_property_def split: if_splits)
  with Cons [of "set_property m (key s) (g s)"] show ?case by auto
qed

lemma interpolateParams_last:
  assumes "key s \<notin> key ` set post" and "key s \<noteq> ''__proto__''"
  shows "interpolateParams (pre @ s # post) tm easing (key s)
         = Some (fl64 (start s + fl64 (fl64 (endv s - start s) * easing (max 0 (min 1 tm)))))"
  unfolding interpolateParams_def Let_def using assms by (rule fold_store_last)

lemma interpolateParams_dom:
  "dom (interpolateParams specs tm easing) \<subseteq> key ` set specs"
  unfolding interpolateParams_def Let_def using fold_store_dom [of _ specs Map.empty] by simp

lemma fl64_3_10: "fl64 (3 / 10) = 5404319552844595 / 2 ^ 54"
  using fl64_eval [of "- 2" "3 / 10"] by (simp add: rne_def powr_neg_numeral)

lemma fl64_difference: "fl64 (5404319552844595 / 2 ^ 54 + 1) = 5854679515581645 / 2 ^ 52"
  using fl64_eval [of 0 "5404319552844595 / 2 ^ 54 + 1"] by (simp add: rne_def powr_neg_numeral)

lemma fl64_difference_again: "fl64 (5854679515581645 / 2 ^ 52) = 5854679515581645 / 2 ^ 52"
  using fl64_eval [of 0 "5854679515581645 / 2 ^ 52"] by (simp add: rne_def powr_neg_numeral)

lemma fl64_sum: "fl64 (- 1 + 5854679515581645 / 2 ^ 52) = 5404319552844596 / 2 ^ 54"
  using fl64_eval [of "- 2" "- 1 + 5854679515581645 / 2 ^ 52"]
  by (simp add: rne_def powr_neg_numeral)

lemma proto_key_not_stored:
  "interpolateParams [\<lparr>key = ''__proto__'', start = 0, endv = 1\<rparr>] tm easing = Map.empty"
  by (simp add: interpolateParams_def set_property_def)

lemma ease_out_below_one: "ease_out (1 - 1 / 2 ^ 52) = 1"
proof -
  have a: "fl64 (2 - (1 - 1 / 2 ^ 52)) = 1 + 1 / 2 ^ 52"
    using fl64_eval [of 0 "2 - (1 - 1 / 2 ^ 52)"] by (simp add: rne_def powr_neg_numeral)
  have "(1 - 1 / 2 ^ 52) * (1 + 1 / 2 ^ 52) = (1 - 1 / 2 ^ 104 :: real)"
    by simp
  then have "fl64 ((1 - 1 / 2 ^ 52) * (1 + 1 / 2 ^ 52)) = fl64 (1 - 1 / 2 ^ 104)"
    by (rule arg_cong)
  also have "\<dots> = 1"
    using fl64_eval [of "- 1" "1 - 1 / 2 ^ 104"] by (simp add: rne_def powr_neg_numeral)
  finally show ?thesis
    unfolding ease_out_def a .
qed

lemma ease_out_nearer_one: "ease_out (1 - 1 / 2 ^ 53) = 1 - 1 / 2 ^ 53"
proof -
  have a: "fl64 (2 - (1 - 1 / 2 ^ 53)) = 1"
    using fl64_eval [of 0 "2 - (1 - 1 / 2 ^ 53)"] by (simp add: rne_def powr_neg_numeral)
  have "fl64 ((1 - 1 / 2 ^ 53) * 1) = fl64 (1 - 1 / 2 ^ 53)"
    by simp
  also have "\<dots> = 1 - 1 / 2 ^ 53"
    using fl64_eval [of "- 1" "1 - 1 / 2 ^ 53"] by (simp add: rne_def powr_neg_numeral)
  finally show ?thesis
    unfolding ease_out_def a .
qed

lemma ease_out_not_monotone:
  "(1 - 1 / 2 ^ 52 :: real) \<le> 1 - 1 / 2 ^ 53
   \<and> ease_out (1 - 1 / 2 ^ 53) < ease_out (1 - 1 / 2 ^ 52)"
  unfolding ease_out_below_one ease_out_nearer_one by simp

lemma ease_in_out_below_one: "ease_in_out (1 - 1 / 2 ^ 52) = 1"
proof -
  have a: "fl64 (2 * (1 - 1 / 2 ^ 52)) = 2 - 1 / 2 ^ 51"
    using fl64_eval [of 0 "2 * (1 - 1 / 2 ^ 52)"] by (simp add: rne_def powr_neg_numeral)
  have b: "fl64 (4 - (2 - 1 / 2 ^ 51)) = 2 + 1 / 2 ^ 51"
    using fl64_eval [of 1 "4 - (2 - 1 / 2 ^ 51)"] by (simp add: rne_def powr_neg_numeral)
  have "(2 + 1 / 2 ^ 51) * (1 - 1 / 2 ^ 52) = (2 - 1 / 2 ^ 103 :: real)"
    by simp
  then have "fl64 ((2 + 1 / 2 ^ 51) * (1 - 1 / 2 ^ 52)) = fl64 (2 - 1 / 2 ^ 103)"
    by (rule arg_cong)
  also have "\<dots> = 2"
    using fl64_eval [of 0 "2 - 1 / 2 ^ 103"] by (simp add: rne_def powr_neg_numeral)
  finally have c: "fl64 ((2 + 1 / 2 ^ 51) * (1 - 1 / 2 ^ 52)) = 2" .
  have d: "fl64 (- 1 + 2) = 1"
    by (simp add: fl64_1)
  have "\<not> (1 - 1 / 2 ^ 52 :: real) < 1 / 2" by simp
  then show ?thesis
    unfolding ease_in_out_def a b c d by (simp only: if_False)
qed

lemma ease_in_out_nearer_one: "ease_in_out (1 - 1 / 2 ^ 53) = 1 - 1 / 2 ^ 52"
proof -
  have a: "fl64 (2 * (1 - 1 / 2 ^ 53)) = 2 - 1 / 2 ^ 52"
    using fl64_eval [of 0 "2 * (1 - 1 / 2 ^ 53)"] by (simp add: rne_def powr_neg_numeral)
  have b: "fl64 (4 - (2 - 1 / 2 ^ 52)) = 2"
    using fl64_eval [of 1 "4 - (2 - 1 / 2 ^ 52)"] by (simp add: rne_def powr_neg_numeral)
  have "2 * (1 - 1 / 2 ^ 53) = (2 - 1 / 2 ^ 52 :: real)"
    by simp
  then have "fl64 (2 * (1 - 1 / 2 ^ 53)) = fl64 (2 - 1 / 2 ^ 52)"
    by (rule arg_cong)
  with a have c: "fl64 (2 * (1 - 1 / 2 ^ 53)) = 2 - 1 / 2 ^ 52" by simp
  have "- 1 + (2 - 1 / 2 ^ 52) = (1 - 1 / 2 ^ 52 :: real)"
    by simp
  then have "fl64 (- 1 + (2 - 1 / 2 ^ 52)) = fl64 (1 - 1 / 2 ^ 52)"
    by (rule arg_cong)
  also have "\<dots> = 1 - 1 / 2 ^ 52"
    using fl64_eval [of "- 1" "1 - 1 / 2 ^ 52"] by (simp add: rne_def powr_neg_numeral)
  finally have d: "fl64 (- 1 + (2 - 1 / 2 ^ 52)) = 1 - 1 / 2 ^ 52" .
  have "\<not> (1 - 1 / 2 ^ 53 :: real) < 1 / 2" by simp
  then show ?thesis
    unfolding ease_in_out_def a b c d by (simp only: if_False)
qed

lemma ease_in_out_not_monotone:
  "(1 - 1 / 2 ^ 52 :: real) \<le> 1 - 1 / 2 ^ 53
   \<and> ease_in_out (1 - 1 / 2 ^ 53) < ease_in_out (1 - 1 / 2 ^ 52)"
  unfolding ease_in_out_below_one ease_in_out_nearer_one by simp

lemma end_value_missed:
  "interpolateParams [\<lparr>key = ''x'', start = - 1, endv = fl64 (3 / 10)\<rparr>] 1 linear ''x''
     = Some (5404319552844596 / 2 ^ 54)
   \<and> fl64 (3 / 10) = 5404319552844595 / 2 ^ 54
   \<and> interpolateParams [\<lparr>key = ''x'', start = - 1, endv = fl64 (3 / 10)\<rparr>] 1 linear ''x''
     \<noteq> Some (fl64 (3 / 10))"
proof -
  let ?s = "\<lparr>key = ''x'', start = - 1 :: real, endv = fl64 (3 / 10)\<rparr>"
  have d: "fl64 (endv ?s - start ?s) = 5854679515581645 / 2 ^ 52"
  proof -
    have "endv ?s - start ?s = 5404319552844595 / 2 ^ 54 + 1"
      by (simp add: fl64_3_10)
    then have "fl64 (endv ?s - start ?s) = fl64 (5404319552844595 / 2 ^ 54 + 1)"
      by (rule arg_cong)
    then show ?thesis by (simp only: fl64_difference)
  qed
  have m: "fl64 (fl64 (endv ?s - start ?s) * linear (max 0 (min 1 1))) = 5854679515581645 / 2 ^ 52"
  proof -
    have "fl64 (endv ?s - start ?s) * linear (max 0 (min 1 1)) = 5854679515581645 / 2 ^ 52"
      unfolding d by (simp add: linear_def)
    then have "fl64 (fl64 (endv ?s - start ?s) * linear (max 0 (min 1 1)))
               = fl64 (5854679515581645 / 2 ^ 52)"
      by (rule arg_cong)
    then show ?thesis by (simp only: fl64_difference_again)
  qed
  have r: "fl64 (start ?s + fl64 (fl64 (endv ?s - start ?s) * linear (max 0 (min 1 1))))
           = 5404319552844596 / 2 ^ 54"
  proof -
    have "start ?s + fl64 (fl64 (endv ?s - start ?s) * linear (max 0 (min 1 1)))
          = - 1 + 5854679515581645 / 2 ^ 52"
      unfolding m by simp
    then have "fl64 (start ?s + fl64 (fl64 (endv ?s - start ?s) * linear (max 0 (min 1 1))))
               = fl64 (- 1 + 5854679515581645 / 2 ^ 52)"
      by (rule arg_cong)
    then show ?thesis by (simp only: fl64_sum)
  qed
  have "interpolateParams ([] @ ?s # []) 1 linear (key ?s)
        = Some (fl64 (start ?s + fl64 (fl64 (endv ?s - start ?s) * linear (max 0 (min 1 1)))))"
    by (rule interpolateParams_last) simp_all
  then have v: "interpolateParams [?s] 1 linear ''x'' = Some (5404319552844596 / 2 ^ 54)"
    unfolding r by simp
  have ne: "interpolateParams [?s] 1 linear ''x'' \<noteq> Some (fl64 (3 / 10))"
    unfolding v by (simp add: fl64_3_10)
  from v fl64_3_10 ne show ?thesis by (intro conjI)
qed

text \<open>
  C5, as stated, makes the record interpolated at time 1 hold the end values and every
  easing non-decreasing. For the spec \<^verbatim>\<open>x=-1:0.3\<close> and the linear easing the stored value
  is one unit in the last place above the end value: \<open>0.3 - (-1)\<close> is rounded, and adding
  \<open>-1\<close> does not give \<open>0.3\<close> back. And \<^verbatim>\<open>ease-out\<close> and \<^verbatim>\<open>ease-in-out\<close> both decrease
  between the last two binary64 values below 1.
\<close>

theorem rounding_breaks_end_value_and_monotonicity:
  "interpolateParams [\<lparr>key = ''x'', start = - 1, endv = fl64 (3 / 10)\<rparr>] 1 linear ''x''
     \<noteq> Some (fl64 (3 / 10))
   \<and> ((1 - 1 / 2 ^ 52 :: real) \<le> 1 - 1 / 2 ^ 53
        \<and> ease_out (1 - 1 / 2 ^ 53) < ease_out (1 - 1 / 2 ^ 52))
   \<and> ((1 - 1 / 2 ^ 52 :: real) \<le> 1 - 1 / 2 ^ 53
        \<and> ease_in_out (1 - 1 / 2 ^ 53) < ease_in_out (1 - 1 / 2 ^ 52))"
  by (rule conjI [OF end_value_missed [THEN conjunct2, THEN conjunct2]
        conjI [OF ease_out_not_monotone ease_in_out_not_monotone]])

text \<open>
  C5, amended. Every registered easing (\<^verbatim>\<open>linear\<close>, \<^verbatim>\<open>ease-in\<close>, \<^verbatim>\<open>ease-out\<close>,
  \<^verbatim>\<open>ease-in-out\<close>) maps 0 to 0 and 1 to 1, and \<^verbatim>\<open>linear\<close> and \<^verbatim>\<open>ease-in\<close> are
  non-decreasing on \<open>[0, 1]\<close>; \<^verbatim>\<open>ease-out\<close> and \<^verbatim>\<open>ease-in-out\<close> are non-decreasing up
  to the rounding of their operations: between two times \<open>x \<le> y\<close> of \<open>[0, 1]\<close> the value
  never falls by more than \<open>3 / 2 ^ 51\<close>. For every list of specs and every registered
  easing, the record interpolated at any time has no key beyond those of the specs; for
  a key other than \<^verbatim>\<open>__proto__\<close> whose start value is a binary64 value and whose difference
  \<open>end - start\<close> rounds to a finite value, the record at time 0 maps the key to its start
  value, and the record at time 1 maps it to \<open>start + (end - start) * 1\<close> as computed in
  binary64, which is the end value whenever \<open>end - start\<close> is itself a binary64 value.
  A key carried by several specs takes the value of the last of them.
\<close>

theorem easings_fix_endpoints:
  assumes "(name, f) \<in> set EASINGS"
  shows "f 0 = 0 \<and> f 1 = 1
   \<and> (name = ''linear'' \<or> name = ''ease-in'' \<longrightarrow>
        (\<forall>x y. 0 \<le> x \<and> x \<le> y \<and> y \<le> 1 \<longrightarrow> f x \<le> f y))
   \<and> (\<forall>x y. 0 \<le> x \<and> x \<le> y \<and> y \<le> 1 \<longrightarrow> f x \<le> f y + 3 / 2 ^ 51)
   \<and> dom (interpolateParams specs tm f) \<subseteq> key ` set specs
   \<and> (\<forall>pre s post. specs = pre @ s # post \<and> key s \<notin> key ` set post \<and> key s \<noteq> ''__proto__''
          \<and> is_double (start s) \<and> in_range64 (endv s - start s) \<longrightarrow>
         interpolateParams specs 0 f (key s) = Some (start s)
         \<and> (in_range64 (start s + fl64 (endv s - start s)) \<longrightarrow>
              interpolateParams specs 1 f (key s)
                = Some (fl64 (start s + fl64 (fl64 (endv s - start s) * 1))))
         \<and> (is_double (endv s) \<and> fl64 (endv s - start s) = endv s - start s \<longrightarrow>
              interpolateParams specs 1 f (key s) = Some (endv s)))"
proof (intro conjI allI impI)
  show "f 0 = 0" and "f 1 = 1"
    using assms by (rule registered_easing_endpoints)+
next
  fix x y :: real
  assume n: "name = ''linear'' \<or> name = ''ease-in''" and "0 \<le> x \<and> x \<le> y \<and> y \<le> 1"
  then have "0 \<le> x" and "x \<le> y" by simp_all
  with assms n show "f x \<le> f y" by (rule registered_easing_mono)
next
  fix x y :: real
  assume "0 \<le> x \<and> x \<le> y \<and> y \<le> 1"
  then have "0 \<le> x" and "x \<le> y" and "y \<le> 1" by simp_all
  with assms show "f x \<le> f y + 3 / 2 ^ 51" by (rule registered_easing_nearly_mono)
next
  show "dom (interpolateParams specs tm f) \<subseteq> key ` set specs"
    by (rule interpolateParams_dom)
next
  fix pre s post
  assume h: "specs = pre @ s # post \<and> key s \<notin> key ` set post \<and> key s \<noteq> ''__proto__''
          \<and> is_double (start s) \<and> in_range64 (endv s - start s)"
  then have specs: "specs = pre @ s # post" and last: "key s \<notin> key ` set post"
    and key: "key s \<noteq> ''__proto__''" and st: "fl64 (start s) = start s"
    by (simp_all add: is_double_def)
  note v = interpolateParams_last [OF last key, of pre _ f]
  show "interpolateParams specs 0 f (key s) = Some (start s)"
    unfolding specs v using registered_easing_endpoints(1) [OF assms]
    by (simp add: fl64_zero st)
  show "interpolateParams specs 1 f (key s)
          = Some (fl64 (start s + fl64 (fl64 (endv s - start s) * 1)))"
    unfolding specs v using registered_easing_endpoints(2) [OF assms] by simp
  show "interpolateParams specs 1 f (key s) = Some (endv s)"
    if "is_double (endv s) \<and> fl64 (endv s - start s) = endv s - start s"
    unfolding specs v using registered_easing_endpoints(2) [OF assms] that
    by (simp add: is_double_def)
qed

theorem easings_fix_endpoints_witness:
  "ease_in 0 = 0 \<and> ease_in 1 = 1 \<and> ease_in (1 / 4) \<le> ease_in (3 / 4)
   \<and> interpolateParams [\<lparr>key = ''x'', start = 0, endv = 1\<rparr>, \<lparr>key = ''y'', start = 2, endv = 0\<rparr>]
        0 ease_in ''x'' = Some 0
   \<and> interpolateParams [\<lparr>key = ''x'', start = 0, endv = 1\<rparr>, \<lparr>key = ''y'', start = 2, endv = 0\<rparr>]
        1 ease_in ''x'' = Some 1"
proof -
  let ?x = "\<lparr>key = ''x'', start = 0 :: real, endv = 1\<rparr>"
  let ?y = "\<lparr>key = ''y'', start = 2 :: real, endv = 0\<rparr>"
  have reg: "(''ease-in'', ease_in) \<in> set EASINGS"
    by (simp add: EASINGS_def)
  note t = easings_fix_endpoints [OF reg, of "[?x, ?y]" 0]
  have hyp: "[?x, ?y] = [] @ ?x # [?y] \<and> key ?x \<notin> key ` set [?y] \<and> key ?x \<noteq> ''__proto__''
          \<and> is_double (start ?x) \<and> in_range64 (endv ?x - start ?x)"
    by (simp add: is_double_def in_range64_def fl64_zero)
  have ex: "is_double (endv ?x) \<and> fl64 (endv ?x - start ?x) = endv ?x - start ?x"
    by (simp add: is_double_def in_range64_def fl64_1)
  from t have "ease_in 0 = 0" and "ease_in 1 = 1" by simp_all
  moreover from t have "ease_in (1 / 4) \<le> ease_in (3 / 4)" by simp
  moreover from t hyp ex have "interpolateParams [?x, ?y] 0 ease_in (key ?x) = Some (start ?x)
      \<and> interpolateParams [?x, ?y] 1 ease_in (key ?x) = Some (endv ?x)"
    by blast
  ultimately show ?thesis by simp
qed

end
